theory Spec2Isabelle
  imports Complex_Main
begin

section \<open>The timer scheduler of \<^verbatim>\<open>timer.js\<close>\<close>

text \<open>
  The development embeds the classes \<^verbatim>\<open>Timer\<close> and \<^verbatim>\<open>TimerManager\<close> of
  \<^verbatim>\<open>src/timer.js\<close>.

  Conventions of the embedding.
  \<^item> A \<^verbatim>\<open>Date\<close> is its number of milliseconds since the epoch, an \<open>int\<close>; the
    difference of two dates is the difference of these numbers, as in JavaScript.
  \<^item> The numeric fields (\<^verbatim>\<open>intervalSeconds\<close>, \<^verbatim>\<open>maxSeconds\<close>,
    \<^verbatim>\<open>elapsedSeconds\<close>) hold whole numbers of seconds, an \<open>int\<close>; \<^verbatim>\<open>maxSeconds\<close>
    is \<^verbatim>\<open>number|null\<close>, an \<open>int option\<close> with \<open>None\<close> for \<^verbatim>\<open>null\<close>. Quotients by
    \<^verbatim>\<open>1000\<close> and the tolerance \<^verbatim>\<open>0.4\<close> are computed in exact arithmetic (\<open>real\<close>),
    without the rounding of JavaScript's doubles; time differences are absolute values
    (\<^verbatim>\<open>Math.abs\<close>), as in the source.
  \<^item> Every evaluation of \<^verbatim>\<open>new Date()\<close> is a reading of a clock: the clock is a
    function from the number of readings made so far to the value read, and the
    count is part of the host state threaded through every operation.
  \<^item> The console and the notification service belong to the host application: a call
    to them is recorded in a trace kept in the host state and has no other effect.
  \<^item> The action and the tick action of a timer are functions of the host application,
    represented by their names. Each is called synchronously with the timer object
    itself, and can reach the manager through the global \<^verbatim>\<open>player\<close>: it can write the
    fields of any timer of the collection (directly, or through \<^verbatim>\<open>cancel()\<close> and the
    other methods) and add timers to the collection. What a callable does is a
    parameter of the model (\<open>callables\<close>): given the name, the position of the timer it
    is called with and the collection at that moment, the writes it makes to each timer
    and the timers it appends. A call is also recorded, with its argument, in the trace.
    A callable that calls \<^verbatim>\<open>checkTimers\<close> or \<^verbatim>\<open>executeAction\<close> itself, or that replaces the
    manager's array, is outside the model, and so is what a callable does to the clock,
    the console and the notification service.
  \<^item> The manager's array holds each timer object once, and nothing in the model removes
    or moves a timer except the filter of \<^verbatim>\<open>checkTimers\<close>; so the array is a list of
    timer records, a timer object is known by its position in the list, and a mutation
    of an object is an update of the list at that position.
  \<^item> \<^verbatim>\<open>executeAction\<close> is an \<^verbatim>\<open>async\<close> function. Its body up to the \<^verbatim>\<open>await\<close> runs
    inside the caller; the statements after the \<^verbatim>\<open>await\<close> run later, when the action's
    promise has settled. The two parts are the functions \<open>executeAction\<close> and
    \<open>executeAction_resume\<close>. Since the callables it runs can write to the whole
    collection, \<open>executeAction\<close> takes the collection and the position of \<^verbatim>\<open>this\<close> in it.
\<close>

subsection \<open>Host state: clock readings and calls to collaborators\<close>

type_synonym date = int
type_synonym callable = string
type_synonym clock = "nat \<Rightarrow> date"

record timer =
  timerId :: string
  action :: callable
  isBlockTimer :: bool
  intervalSeconds :: int
  maxSeconds :: "int option"
  isInactivityTimer :: bool
  isActionRunning :: bool
  isActive :: bool
  lastExecutionDate :: date
  elapsedSeconds :: int
  tickAction :: "callable option"
  createdDate :: date

datatype warning =
  InvalidTimerArguments string int "int option"
| DuplicateTimer string

datatype event =
  TickActionCalled callable timer
| ActionCalled callable timer
| ConsoleWarn warning
| ClearAlerts "string list"

record host =
  reads :: nat
  trace :: "event list"

definition newDate :: "clock \<Rightarrow> host \<Rightarrow> date \<times> host" where
  "newDate clk h = (clk (reads h), h\<lparr>reads := Suc (reads h)\<rparr>)"

definition call :: "event \<Rightarrow> host \<Rightarrow> host" where
  "call e h = h\<lparr>trace := trace h @ [e]\<rparr>"

text \<open>The events recorded between an earlier host state and a later one.\<close>

definition emitted :: "host \<Rightarrow> host \<Rightarrow> event list" where
  "emitted h h' = drop (length (trace h)) (trace h')"

subsection \<open>What a callable of the host does to the collection\<close>

text \<open>
  An effect is a pair: the write made to the timer at each position (the identity where
  the callable leaves a timer alone) and the timers pushed onto the collection.
\<close>

type_synonym effect = "(nat \<Rightarrow> timer \<Rightarrow> timer) \<times> timer list"
type_synonym callables = "callable \<Rightarrow> nat \<Rightarrow> timer list \<Rightarrow> effect"

definition perform :: "effect \<Rightarrow> timer list \<Rightarrow> timer list" where
  "perform e ts = map (\<lambda>(i, t). fst e i t) (enumerate 0 ts) @ snd e"

text \<open>Callables that leave the scheduler's objects alone.\<close>

definition inert :: callables where
  "inert f n ts = (\<lambda>i t. t, [])"

subsection \<open>JavaScript arithmetic\<close>

text \<open>
  \<^verbatim>\<open>a % b\<close> on whole numbers: the remainder takes the sign of the dividend, and a zero
  divisor gives \<^verbatim>\<open>NaN\<close> (\<open>None\<close>), which is \<^verbatim>\<open>===\<close> to nothing.
\<close>

definition js_rem :: "int \<Rightarrow> int \<Rightarrow> int option" where
  "js_rem a b = (if b = 0 then None else Some (sgn a * (\<bar>a\<bar> mod \<bar>b\<bar>)))"

text \<open>\<^verbatim>\<open>ToNumber\<close> of a \<^verbatim>\<open>number|null\<close> value in a comparison: \<^verbatim>\<open>null\<close> counts as 0.\<close>

definition js_num :: "int option \<Rightarrow> int" where
  "js_num v = (case v of None \<Rightarrow> 0 | Some n \<Rightarrow> n)"

subsection \<open>Class \<^verbatim>\<open>Timer\<close>\<close>

definition new_Timer ::
  "clock \<Rightarrow> string \<Rightarrow> callable \<Rightarrow> bool \<Rightarrow> int \<Rightarrow> int option \<Rightarrow> bool \<Rightarrow> callable option
    \<Rightarrow> host \<Rightarrow> timer \<times> host" where
  "new_Timer clk i a isBlock interval mx isInactivity tick h =
     (let (d1, h1) = newDate clk h;
          (d2, h2) = newDate clk h1
      in (\<lparr>timerId = i, action = a, isBlockTimer = isBlock, intervalSeconds = interval,
           maxSeconds = mx, isInactivityTimer = isInactivity, isActionRunning = False,
           isActive = False, lastExecutionDate = d1, elapsedSeconds = 4800,
           tickAction = tick, createdDate = d2\<rparr>, h2))"

definition remainingSeconds :: "timer \<Rightarrow> int option" where
  "remainingSeconds t =
     (case maxSeconds t of
        None \<Rightarrow> None
      | Some m \<Rightarrow> Some (max 0 (m - elapsedSeconds t)))"

definition isComplete :: "timer \<Rightarrow> bool" where
  "isComplete t =
     (if maxSeconds t = None then False
      else (let rangeStart = 0; rangeEnd = 4800
            in js_num (remainingSeconds t) \<ge> rangeStart \<and> js_num (remainingSeconds t) \<le> rangeEnd))"

definition cancel :: "timer \<Rightarrow> timer" where
  "cancel t = (t\<lparr>isActive := False\<rparr>)\<lparr>maxSeconds := Some (elapsedSeconds t)\<rparr>"

definition resetElapsedSeconds :: "timer \<Rightarrow> timer" where
  "resetElapsedSeconds t = t\<lparr>elapsedSeconds := 0\<rparr>"

definition resetLastExecutionDate :: "clock \<Rightarrow> timer \<Rightarrow> host \<Rightarrow> timer \<times> host" where
  "resetLastExecutionDate clk t h =
     (let (d, h1) = newDate clk h in (t\<lparr>lastExecutionDate := d\<rparr>, h1))"

text \<open>
  \<^verbatim>\<open>executeAction\<close> up to its \<^verbatim>\<open>await\<close>, for the timer at position \<open>n\<close> of the collection
  \<open>ts\<close>: the early return, the increment, the tick action, the decision on the timer as
  the tick action left it and, when the action fires, the guard, the new timestamp and
  the call of the action. Each callable is called with the timer as it is at that moment
  and its effect is performed before the next statement runs.
\<close>

definition executeAction ::
  "callables \<Rightarrow> clock \<Rightarrow> date \<Rightarrow> nat \<Rightarrow> timer list \<Rightarrow> host \<Rightarrow> timer list \<times> host" where
  "executeAction eff clk currentDate n ts h =
     (if \<not> n < length ts then (ts, h)
      else if \<not> isActive (ts ! n) then (ts, h)
      else
        let ts1 = ts[n := (ts ! n)\<lparr>elapsedSeconds := elapsedSeconds (ts ! n) + 1\<rparr>];
            (ts2, h1) = (case tickAction (ts1 ! n) of
                    None \<Rightarrow> (ts1, h)
                  | Some f \<Rightarrow>
                      (perform (eff f n ts1) ts1, call (TickActionCalled f (ts1 ! n)) h));
            timeDiffSec = \<bar>real_of_int (currentDate - lastExecutionDate (ts2 ! n))\<bar> / 1000
        in if isActive (ts2 ! n) \<and> \<not> isActionRunning (ts2 ! n) \<and>
              (js_rem (elapsedSeconds (ts2 ! n)) (intervalSeconds (ts2 ! n)) = Some 0 \<or>
               timeDiffSec \<ge> real_of_int (intervalSeconds (ts2 ! n) + 1))
           then
             let ts3 = ts2[n := (ts2 ! n)\<lparr>isActionRunning := True\<rparr>];
                 (d, h2) = newDate clk h1;
                 ts4 = ts3[n := (ts3 ! n)\<lparr>lastExecutionDate := d\<rparr>];
                 f = action (ts4 ! n)
             in (perform (eff f n ts4) ts4, call (ActionCalled f (ts4 ! n)) h2)
           else (ts2, h1))"

text \<open>The statements of \<^verbatim>\<open>executeAction\<close> after the \<^verbatim>\<open>await\<close>.\<close>

definition executeAction_resume :: "timer \<Rightarrow> timer" where
  "executeAction_resume t =
     (let t1 = t\<lparr>isActionRunning := False\<rparr>
      in if isComplete t1 then t1\<lparr>isActive := False\<rparr> else t1)"

subsection \<open>Class \<^verbatim>\<open>TimerManager\<close>\<close>

record manager =
  timers :: "timer list"
  managerLastExecutionDate :: date
  checkTimerInterval :: int

definition timerTolerance :: real where
  "timerTolerance = 0.4"

definition new_TimerManager :: "clock \<Rightarrow> host \<Rightarrow> manager \<times> host" where
  "new_TimerManager clk h =
     (let (d, h1) = newDate clk h
      in (\<lparr>timers = [], managerLastExecutionDate = d, checkTimerInterval = 1000\<rparr>, h1))"

text \<open>
  The last statement of \<^verbatim>\<open>checkTimers\<close>. \<^verbatim>\<open>timers.filter(x => x.isActive)\<close> selects the
  timers that are active when the statement starts, here by their positions;
  \<^verbatim>\<open>executeAction\<close> is then called on each of them in order, on the collection as the
  calls before it left it. Each call runs up to its \<^verbatim>\<open>await\<close>.
\<close>

definition activePositions :: "timer list \<Rightarrow> nat list" where
  "activePositions ts = filter (\<lambda>n. isActive (ts ! n)) [0..<length ts]"

fun executeActions ::
  "callables \<Rightarrow> clock \<Rightarrow> date \<Rightarrow> nat list \<Rightarrow> timer list \<Rightarrow> host \<Rightarrow> timer list \<times> host" where
  "executeActions eff clk currentDate [] ts h = (ts, h)"
| "executeActions eff clk currentDate (n # ns) ts h =
     (let (ts1, h1) = executeAction eff clk currentDate n ts h
      in executeActions eff clk currentDate ns ts1 h1)"

definition checkTimers :: "callables \<Rightarrow> clock \<Rightarrow> manager \<Rightarrow> host \<Rightarrow> manager \<times> host" where
  "checkTimers eff clk timerManager h =
     (let (currentDate, h1) = newDate clk h;
          timeDiffSec =
            \<bar>real_of_int (currentDate - managerLastExecutionDate timerManager)\<bar> / 1000
      in if timeDiffSec + timerTolerance < real_of_int (checkTimerInterval timerManager) / 1000
         then (timerManager, h1)
         else
           let m1 = timerManager\<lparr>managerLastExecutionDate := currentDate\<rparr>;
               m2 = m1\<lparr>timers := filter (\<lambda>x. isActive x \<or> isInactivityTimer x) (timers m1)\<rparr>;
               (ts, h2) = executeActions eff clk currentDate (activePositions (timers m2))
                            (timers m2) h1
           in (m2\<lparr>timers := ts\<rparr>, h2))"

definition addTimer ::
  "clock \<Rightarrow> string \<Rightarrow> callable \<Rightarrow> bool \<Rightarrow> int \<Rightarrow> int option \<Rightarrow> bool \<Rightarrow> callable option
    \<Rightarrow> manager \<Rightarrow> host \<Rightarrow> manager \<times> host" where
  "addTimer clk i timerAction isBlock interval mx isInactivity tick m h =
     (if interval \<le> 0 \<or> (mx \<noteq> None \<and> js_num mx \<le> 0)
      then (m, call (ConsoleWarn (InvalidTimerArguments i interval mx)) h)
      else if length (filter (\<lambda>t. timerId t = i \<and> isActive t = True) (timers m)) = 0
      then
        let (t, h1) = new_Timer clk i timerAction isBlock interval mx isInactivity tick h
        in (m\<lparr>timers := timers m @ [t]\<rparr>, h1)
      else (m, call (ConsoleWarn (DuplicateTimer i)) h))"

text \<open>
  \<^verbatim>\<open>this.timers.filter(p).forEach(x => x.cancel())\<close>: the selected objects are
  cancelled where they stand in the collection.
\<close>

definition cancelWhere :: "(timer \<Rightarrow> bool) \<Rightarrow> manager \<Rightarrow> manager" where
  "cancelWhere p m = m\<lparr>timers := map (\<lambda>x. if p x then cancel x else x) (timers m)\<rparr>"

definition cancelBlockTimers :: "manager \<Rightarrow> manager" where
  "cancelBlockTimers m = cancelWhere (\<lambda>x. isBlockTimer x) m"

definition getTimer :: "string option \<Rightarrow> manager \<Rightarrow> timer option" where
  "getTimer i m =
     (case filter (\<lambda>x. Some (timerId x) = i) (timers m) of
        [] \<Rightarrow> None
      | x # _ \<Rightarrow> Some x)"

definition hasTimer :: "string option \<Rightarrow> manager \<Rightarrow> bool" where
  "hasTimer i m = (getTimer i m \<noteq> None)"

definition cancelTimer :: "string option \<Rightarrow> manager \<Rightarrow> manager" where
  "cancelTimer i m = cancelWhere (\<lambda>x. Some (timerId x) = i) m"

definition cancelTimers :: "string list \<Rightarrow> manager \<Rightarrow> manager" where
  "cancelTimers timerIds m = cancelWhere (\<lambda>x. timerId x \<in> set timerIds) m"

definition hasInactivityTimers :: "manager \<Rightarrow> bool" where
  "hasInactivityTimers m = list_ex (\<lambda>t. isInactivityTimer t) (timers m)"

subsection \<open>\<^verbatim>\<open>resetInactivityTimers\<close> and the global \<^verbatim>\<open>player\<close>\<close>

text \<open>
  \<^verbatim>\<open>resetInactivityTimers\<close> never touches \<^verbatim>\<open>this\<close>: it reads and writes the global
  \<^verbatim>\<open>player\<close>, of which the model keeps the two fields the method uses. The result of
  \<^verbatim>\<open>rxdLibraryIsAvailable()\<close> is a parameter.
\<close>

record player =
  timerManager :: manager
  inactivityLastClearDate :: date

text \<open>The \<^verbatim>\<open>forEach\<close> over the inactivity timers, each timer reading the clock itself.\<close>

definition resetInactivityTimer :: "clock \<Rightarrow> timer \<Rightarrow> host \<Rightarrow> timer \<times> host" where
  "resetInactivityTimer clk t h =
     (let t1 = resetElapsedSeconds t;
          (t2, h1) = resetLastExecutionDate clk t1 h
      in (t2\<lparr>isActive := True\<rparr>, h1))"

fun resetEach :: "clock \<Rightarrow> timer list \<Rightarrow> host \<Rightarrow> timer list \<times> host" where
  "resetEach clk [] h = ([], h)"
| "resetEach clk (t # ts) h =
     (let (t', h1) = (if isInactivityTimer t then resetInactivityTimer clk t h else (t, h));
          (ts', h2) = resetEach clk ts h1
      in (t' # ts', h2))"

text \<open>
  The method calls itself (\<^verbatim>\<open>player.timerManager.resetInactivityTimers()\<close>) after it
  has stored the new \<^verbatim>\<open>inactivityLastClearDate\<close>; the inner call reads the clock again
  and returns at once when its reading is less than ten seconds from the stored one.
  Nothing else bounds the recursion, so the result is an option and \<open>None\<close> stands for
  a call that does not return.
\<close>

partial_function (option) resetInactivityTimers ::
  "clock \<Rightarrow> bool \<Rightarrow> player \<Rightarrow> host \<Rightarrow> (player \<times> host) option" where
  "resetInactivityTimers clk rxdLibraryIsAvailable p h =
     (case newDate clk h of (currentDate, h1) \<Rightarrow>
        if \<bar>currentDate - inactivityLastClearDate p\<bar> < 10000 then Some (p, h1)
        else
          Option.bind
            (resetInactivityTimers clk rxdLibraryIsAvailable
               (p\<lparr>inactivityLastClearDate := currentDate\<rparr>) h1)
            (\<lambda>(p2, h2).
               let warningAlertName =
                     (if rxdLibraryIsAvailable then ''RxdUserInactivityWarning''
                      else ''UserInactivityWarning'');
                   h3 = call (ClearAlerts [warningAlertName]) h2;
                   (ts, h4) = resetEach clk (timers (timerManager p2)) h3
               in Some (p2\<lparr>timerManager := (timerManager p2)\<lparr>timers := ts\<rparr>\<rparr>, h4)))"

declare resetInactivityTimers.simps [code]

subsection \<open>Sequences of public operations\<close>

text \<open>
  The operations a client or the host's event loop can perform on the manager held by
  \<^verbatim>\<open>player\<close> and on the timers of its collection. A timer is addressed by its position
  in the collection; an operation addressed to a position that holds no timer changes
  nothing. The callables that \<^verbatim>\<open>checkTimers\<close> and \<^verbatim>\<open>executeAction\<close> run act as \<open>eff\<close> says. \<open>ActionSettled\<close> is the event loop resuming an \<^verbatim>\<open>executeAction\<close> whose awaited
  action has settled, which can only happen to a timer whose action is running.
\<close>

datatype operation =
  AddTimer string callable bool int "int option" bool "callable option"
| CheckTimers
| ExecuteAction nat date
| ActionSettled nat
| Cancel nat
| CancelTimer "string option"
| CancelTimers "string list"
| CancelBlockTimers
| ResetInactivityTimers

definition withManager ::
  "(manager \<Rightarrow> host \<Rightarrow> manager \<times> host) \<Rightarrow> player \<times> host \<Rightarrow> player \<times> host" where
  "withManager f w =
     (let (p, h) = w; (m, h') = f (timerManager p) h in (p\<lparr>timerManager := m\<rparr>, h'))"

definition onTimer ::
  "nat \<Rightarrow> (timer \<Rightarrow> host \<Rightarrow> timer \<times> host) \<Rightarrow> manager \<Rightarrow> host \<Rightarrow> manager \<times> host" where
  "onTimer n f m h =
     (if n < length (timers m)
      then (let (t, h') = f (timers m ! n) h in (m\<lparr>timers := (timers m)[n := t]\<rparr>, h'))
      else (m, h))"

definition onCollection ::
  "(timer list \<Rightarrow> host \<Rightarrow> timer list \<times> host) \<Rightarrow> manager \<Rightarrow> host \<Rightarrow> manager \<times> host" where
  "onCollection f m h = (let (ts, h') = f (timers m) h in (m\<lparr>timers := ts\<rparr>, h'))"

fun apply_op ::
  "callables \<Rightarrow> clock \<Rightarrow> bool \<Rightarrow> operation \<Rightarrow> player \<times> host \<Rightarrow> (player \<times> host) option" where
  "apply_op eff clk rxd (AddTimer i a isBlock interval mx isInactivity tick) w =
     Some (withManager (addTimer clk i a isBlock interval mx isInactivity tick) w)"
| "apply_op eff clk rxd CheckTimers w = Some (withManager (checkTimers eff clk) w)"
| "apply_op eff clk rxd (ExecuteAction n d) w =
     Some (withManager (onCollection (executeAction eff clk d n)) w)"
| "apply_op eff clk rxd (ActionSettled n) w =
     Some (withManager
       (onTimer n (\<lambda>t h. (if isActionRunning t then executeAction_resume t else t, h))) w)"
| "apply_op eff clk rxd (Cancel n) w = Some (withManager (onTimer n (\<lambda>t h. (cancel t, h))) w)"
| "apply_op eff clk rxd (CancelTimer i) w = Some (withManager (\<lambda>m h. (cancelTimer i m, h)) w)"
| "apply_op eff clk rxd (CancelTimers is) w = Some (withManager (\<lambda>m h. (cancelTimers is m, h)) w)"
| "apply_op eff clk rxd CancelBlockTimers w = Some (withManager (\<lambda>m h. (cancelBlockTimers m, h)) w)"
| "apply_op eff clk rxd ResetInactivityTimers w = resetInactivityTimers clk rxd (fst w) (snd w)"

fun run ::
  "callables \<Rightarrow> clock \<Rightarrow> bool \<Rightarrow> operation list \<Rightarrow> player \<times> host \<Rightarrow> (player \<times> host) option" where
  "run eff clk rxd [] w = Some w"
| "run eff clk rxd (x # xs) w =
     (case apply_op eff clk rxd x w of
        None \<Rightarrow> None
      | Some w' \<Rightarrow> run eff clk rxd xs w')"

text \<open>
  The start of every run: nothing has been read or called, \<^verbatim>\<open>player.timerManager\<close> is
  a new manager and \<^verbatim>\<open>player.inactivityLastClearDate\<close> has the value the host gave it.
\<close>

definition startup :: "clock \<Rightarrow> date \<Rightarrow> player \<times> host" where
  "startup clk lastClear =
     (let (m, h) = new_TimerManager clk \<lparr>reads = 0, trace = []\<rparr>
      in (\<lparr>timerManager = m, inactivityLastClearDate = lastClear\<rparr>, h))"

subsection \<open>Vocabulary of the properties\<close>

text \<open>The calls of timer actions among the events of a trace.\<close>

fun isActionCall :: "event \<Rightarrow> bool" where
  "isActionCall (ActionCalled f x) = True"
| "isActionCall (TickActionCalled f x) = False"
| "isActionCall (ConsoleWarn v) = False"
| "isActionCall (ClearAlerts v) = False"

text \<open>The call that clears the inactivity warning of the notification service.\<close>

definition inactivityAlert :: "bool \<Rightarrow> event" where
  "inactivityAlert rxd =
     ClearAlerts [if rxd then ''RxdUserInactivityWarning'' else ''UserInactivityWarning'']"

text \<open>
  Two records describe the same timer object at different moments when they agree on
  the fields that nothing assigns after the constructor.
\<close>

definition sameTimer :: "timer \<Rightarrow> timer \<Rightarrow> bool" where
  "sameTimer t t' \<longleftrightarrow>
     timerId t' = timerId t \<and> action t' = action t \<and> isBlockTimer t' = isBlockTimer t \<and>
     intervalSeconds t' = intervalSeconds t \<and> isInactivityTimer t' = isInactivityTimer t \<and>
     tickAction t' = tickAction t \<and> createdDate t' = createdDate t"

text \<open>
  Callables that write and push as the public operations do: a write keeps the fields
  that identify the timer and sets \<^verbatim>\<open>isActive\<close> only on an inactivity timer, and a pushed
  timer is not active.
\<close>

definition likeOperations :: "callables \<Rightarrow> bool" where
  "likeOperations eff \<longleftrightarrow>
     (\<forall>f n ts i t.
        sameTimer t (fst (eff f n ts) i t) \<and>
        (isActive (fst (eff f n ts) i t) \<longrightarrow> isActive t \<or> isInactivityTimer t)) \<and>
     (\<forall>f n ts. \<forall>t\<in>set (snd (eff f n ts)). \<not> isActive t)"

text \<open>
  The invariant of the reachable states: in the collection only inactivity timers are
  active, and only actions of inactivity timers have been called.
\<close>

definition noStrayActivity :: "player \<times> host \<Rightarrow> bool" where
  "noStrayActivity w \<longleftrightarrow>
     (\<forall>t\<in>set (timers (timerManager (fst w))). isInactivityTimer t = False \<longrightarrow> isActive t = False) \<and>
     (\<forall>f t. ActionCalled f t \<in> set (trace (snd w)) \<longrightarrow> isInactivityTimer t)"

subsection \<open>Sample data\<close>

text \<open>A clock that advances by one second at every reading.\<close>

definition clock0 :: clock where
  "clock0 n = 1000 * int n"

text \<open>A clock that jumps ahead by thirty seconds after its second reading.\<close>

definition clockJump :: clock where
  "clockJump n = (if n \<le> 1 then 1000 * int n else 30000 + 1000 * int n)"

text \<open>
  A host whose tick action \<^verbatim>\<open>showCountdown\<close> calls \<^verbatim>\<open>cancel()\<close> on the timer it is given;
  its other callables leave the scheduler alone.
\<close>

definition cancelsOnTick :: callables where
  "cancelsOnTick f n ts =
     (if f = ''showCountdown'' then (\<lambda>i t. if i = n then cancel t else t, [])
      else (\<lambda>i t. t, []))"

definition saveTimer :: timer where
  "saveTimer =
     \<lparr>timerId = ''save'', action = ''saveProgress'', isBlockTimer = False,
      intervalSeconds = 60, maxSeconds = None, isInactivityTimer = False,
      isActionRunning = False, isActive = True, lastExecutionDate = 0,
      elapsedSeconds = 59, tickAction = Some ''showCountdown'', createdDate = 0\<rparr>"

definition introTimer :: timer where
  "introTimer =
     \<lparr>timerId = ''intro'', action = ''closeIntro'', isBlockTimer = True,
      intervalSeconds = 10, maxSeconds = Some 10, isInactivityTimer = False,
      isActionRunning = False, isActive = False, lastExecutionDate = 0,
      elapsedSeconds = 9, tickAction = None, createdDate = 0\<rparr>"

definition idleTimer :: timer where
  "idleTimer =
     \<lparr>timerId = ''idle'', action = ''warnIdle'', isBlockTimer = False,
      intervalSeconds = 5, maxSeconds = None, isInactivityTimer = True,
      isActionRunning = False, isActive = False, lastExecutionDate = 0,
      elapsedSeconds = 7, tickAction = None, createdDate = 0\<rparr>"

definition sampleManager :: manager where
  "sampleManager =
     \<lparr>timers = [saveTimer, introTimer, idleTimer], managerLastExecutionDate = 700,
      checkTimerInterval = 1000\<rparr>"

definition samplePlayer :: player where
  "samplePlayer = \<lparr>timerManager = sampleManager, inactivityLastClearDate = - 20000\<rparr>"

definition sampleRun :: "operation list" where
  "sampleRun =
     [AddTimer ''idle'' ''warnIdle'' False 5 None True None,
      AddTimer ''save'' ''saveProgress'' False 60 None False None,
      ResetInactivityTimers,
      CheckTimers,
      ExecuteAction 0 20000,
      ActionSettled 0,
      CancelBlockTimers]"

section \<open>Properties of \<^verbatim>\<open>Timer\<close>\<close>

lemma js_rem_zero_iff: "b \<noteq> 0 \<Longrightarrow> js_rem a b = Some 0 \<longleftrightarrow> b dvd a"
  by (auto simp add: js_rem_def sgn_if)

text \<open>
  Claim C2. A timer whose \<^verbatim>\<open>maxSeconds\<close> is \<^verbatim>\<open>null\<close> is not complete, whatever its
  \<^verbatim>\<open>elapsedSeconds\<close>. A timer with a bound \<open>m\<close> has
  \<open>remainingSeconds = max 0 (m - elapsedSeconds)\<close> and is complete exactly when that
  number lies in the closed range from 0 to 4800.
\<close>

theorem isComplete_characterisation:
  "(maxSeconds t = None \<longrightarrow> \<not> isComplete (t\<lparr>elapsedSeconds := e\<rparr>)) \<and>
   (maxSeconds t = Some m \<longrightarrow>
      remainingSeconds t = Some (max 0 (m - elapsedSeconds t)) \<and>
      (isComplete t \<longleftrightarrow>
         0 \<le> max 0 (m - elapsedSeconds t) \<and> max 0 (m - elapsedSeconds t) \<le> 4800))"
  by (simp add: isComplete_def remainingSeconds_def js_num_def)

theorem isComplete_characterisation_witness:
  "(maxSeconds saveTimer = None \<and> \<not> isComplete (saveTimer\<lparr>elapsedSeconds := 100000\<rparr>)) \<and>
   (maxSeconds introTimer = Some 10 \<and> remainingSeconds introTimer = Some 1 \<and>
    isComplete introTimer) \<and>
   (maxSeconds (introTimer\<lparr>maxSeconds := Some 5000\<rparr>) = Some 5000 \<and>
    remainingSeconds (introTimer\<lparr>maxSeconds := Some 5000\<rparr>) = Some 4991 \<and>
    \<not> isComplete (introTimer\<lparr>maxSeconds := Some 5000\<rparr>))"
  using isComplete_characterisation [of saveTimer 100000]
    isComplete_characterisation [of introTimer _ 10]
    isComplete_characterisation [of "introTimer\<lparr>maxSeconds := Some 5000\<rparr>" _ 5000]
  by (simp add: saveTimer_def introTimer_def)

text \<open>
  Claim C3. The constructor sets \<^verbatim>\<open>elapsedSeconds\<close> to 4800, and a timer constructed
  with a bound \<open>m \<le> 9600\<close> is complete as it leaves the constructor, before any tick.
\<close>

theorem new_Timer_elapsed_baseline:
  "elapsedSeconds (fst (new_Timer clk i a isBlock interval mx isInactivity tick h)) = 4800 \<and>
   (m \<le> 9600 \<longrightarrow>
      isComplete (fst (new_Timer clk i a isBlock interval (Some m) isInactivity tick h)))"
  by (simp add: new_Timer_def newDate_def isComplete_def remainingSeconds_def js_num_def Let_def)

theorem new_Timer_elapsed_baseline_witness:
  "(9600::int) \<le> 9600 \<and>
   elapsedSeconds
     (fst (new_Timer clock0 ''intro'' ''closeIntro'' True 10 (Some 9600) False None
            \<lparr>reads = 0, trace = []\<rparr>)) = 4800 \<and>
   isComplete
     (fst (new_Timer clock0 ''intro'' ''closeIntro'' True 10 (Some 9600) False None
            \<lparr>reads = 0, trace = []\<rparr>))"
  using new_Timer_elapsed_baseline
    [of clock0 "''intro''" "''closeIntro''" True 10 "Some 9600" False None
      "\<lparr>reads = 0, trace = []\<rparr>" 9600]
  by simp

text \<open>
  Claim C9. \<^verbatim>\<open>cancel()\<close> clears \<^verbatim>\<open>isActive\<close> and sets \<^verbatim>\<open>maxSeconds\<close> to the current
  \<^verbatim>\<open>elapsedSeconds\<close>, so that \<^verbatim>\<open>remainingSeconds\<close> is 0 and \<^verbatim>\<open>isComplete\<close> holds at
  once; a second \<^verbatim>\<open>cancel()\<close> changes nothing.
\<close>

theorem cancel_completes:
  "isActive (cancel t) = False \<and>
   maxSeconds (cancel t) = Some (elapsedSeconds t) \<and>
   elapsedSeconds (cancel t) = elapsedSeconds t \<and>
   remainingSeconds (cancel t) = Some 0 \<and>
   isComplete (cancel t) \<and>
   cancel (cancel t) = cancel t"
  by (simp add: cancel_def isComplete_def remainingSeconds_def js_num_def)

subsection \<open>Effects of callables\<close>

lemma perform_length: "length (perform e ts) = length ts + length (snd e)"
  by (simp add: perform_def)

lemma perform_nth: "i < length ts \<Longrightarrow> perform e ts ! i = fst e i (ts ! i)"
  by (simp add: perform_def nth_append nth_enumerate_eq)

lemma perform_inert: "perform (inert f n ts') ts = ts"
  by (simp add: perform_def inert_def list_eq_iff_nth_eq nth_enumerate_eq)

subsection \<open>\<^verbatim>\<open>executeAction\<close>\<close>

lemma executeAction_inactive:
  "\<not> (n < length ts \<and> isActive (ts ! n)) \<Longrightarrow> executeAction eff clk now n ts h = (ts, h)"
  by (auto simp add: executeAction_def)

text \<open>The result of \<^verbatim>\<open>executeAction\<close> on an active timer, statement by statement.\<close>

lemma executeAction_active:
  assumes "n < length ts" and "isActive (ts ! n)"
  shows "executeAction eff clk now n ts h =
      (let incremented = (ts ! n)\<lparr>elapsedSeconds := elapsedSeconds (ts ! n) + 1\<rparr>;
           ts1 = ts[n := incremented];
           ts2 = (case tickAction (ts ! n) of
                    None \<Rightarrow> ts1
                  | Some f \<Rightarrow> perform (eff f n ts1) ts1);
           h1 = (case tickAction (ts ! n) of
                    None \<Rightarrow> h
                  | Some f \<Rightarrow> call (TickActionCalled f incremented) h);
           this = ts2 ! n;
           fires = (isActive this \<and> \<not> isActionRunning this \<and>
                    (js_rem (elapsedSeconds this) (intervalSeconds this) = Some 0 \<or>
                     \<bar>real_of_int (now - lastExecutionDate this)\<bar> / 1000
                       \<ge> real_of_int (intervalSeconds this + 1)));
           started = this\<lparr>isActionRunning := True, lastExecutionDate := clk (reads h)\<rparr>;
           ts4 = ts2[n := started]
       in if fires
          then (perform (eff (action this) n ts4) ts4,
                call (ActionCalled (action this) started) (h1\<lparr>reads := Suc (reads h)\<rparr>))
          else (ts2, h1))"
proof (cases "tickAction (ts ! n)")
  case None
  then show ?thesis
    using assms by (simp add: executeAction_def Let_def newDate_def)
next
  case (Some f)
  then show ?thesis
    using assms
    by (auto simp add: executeAction_def Let_def newDate_def call_def perform_length)
qed



section \<open>Properties of \<^verbatim>\<open>TimerManager\<close>\<close>

subsection \<open>The two branches of \<^verbatim>\<open>checkTimers\<close>\<close>

lemma checkTimers_skip:
  assumes "\<bar>real_of_int (clk (reads h) - managerLastExecutionDate m)\<bar> / 1000 + timerTolerance
       < real_of_int (checkTimerInterval m) / 1000"
  shows "checkTimers eff clk m h = (m, h\<lparr>reads := Suc (reads h)\<rparr>)"
  unfolding checkTimers_def newDate_def Let_def split_beta fst_conv snd_conv if_P [OF assms]
  by simp

lemma checkTimers_pass:
  assumes "\<not> \<bar>real_of_int (clk (reads h) - managerLastExecutionDate m)\<bar> / 1000 + timerTolerance
       < real_of_int (checkTimerInterval m) / 1000"
  shows "checkTimers eff clk m h =
     (m\<lparr>managerLastExecutionDate := clk (reads h),
        timers := fst (executeActions eff clk (clk (reads h))
                    (activePositions (filter (\<lambda>x. isActive x \<or> isInactivityTimer x) (timers m)))
                    (filter (\<lambda>x. isActive x \<or> isInactivityTimer x) (timers m))
                    (h\<lparr>reads := Suc (reads h)\<rparr>))\<rparr>,
      snd (executeActions eff clk (clk (reads h))
                    (activePositions (filter (\<lambda>x. isActive x \<or> isInactivityTimer x) (timers m)))
                    (filter (\<lambda>x. isActive x \<or> isInactivityTimer x) (timers m))
                    (h\<lparr>reads := Suc (reads h)\<rparr>)))"
  unfolding checkTimers_def newDate_def Let_def split_beta fst_conv snd_conv if_not_P [OF assms]
  by simp

subsection \<open>Properties of every timer that the operations' own writes preserve\<close>

text \<open>
  \<^verbatim>\<open>executeAction\<close> itself writes \<^verbatim>\<open>elapsedSeconds\<close>, \<^verbatim>\<open>isActionRunning\<close> and
  \<^verbatim>\<open>lastExecutionDate\<close> only. A property \<open>Q\<close> of timers that depends on the flags
  \<^verbatim>\<open>isActive\<close> and \<^verbatim>\<open>isInactivityTimer\<close> alone, and that the callables keep true of every
  timer of the collection, is therefore kept by \<^verbatim>\<open>executeAction\<close> and by the pass.
\<close>

lemma update_keeps:
  assumes "\<forall>t\<in>set ts. Q t" and "Q t'"
  shows "\<forall>t\<in>set (ts[n := t']). Q t"
proof
  fix t assume "t \<in> set (ts[n := t'])"
  then have "t = t' \<or> t \<in> set ts"
    using set_update_subset_insert [of ts n t'] by auto
  with assms show "Q t" by auto
qed

lemma executeAction_keeps:
  assumes flags: "\<And>t t'. isActive t' = isActive t \<Longrightarrow>
                   isInactivityTimer t' = isInactivityTimer t \<Longrightarrow> Q t \<Longrightarrow> Q t'"
    and quiet: "\<And>f n ts. \<forall>t\<in>set ts. Q t \<Longrightarrow> \<forall>t\<in>set (perform (eff f n ts) ts). Q t"
    and all: "\<forall>t\<in>set ts. Q t"
  shows "\<forall>t\<in>set (fst (executeAction eff clk d n ts h)). Q t"
proof (cases "n < length ts \<and> isActive (ts ! n)")
  case False
  then show ?thesis using all by (auto simp add: executeAction_def)
next
  case True
  then have n: "n < length ts" and act: "isActive (ts ! n)" by simp_all
  define ts1 where "ts1 = ts[n := (ts ! n)\<lparr>elapsedSeconds := elapsedSeconds (ts ! n) + 1\<rparr>]"
  define ts2 where "ts2 = (case tickAction (ts ! n) of
                    None \<Rightarrow> ts1
                  | Some f \<Rightarrow> perform (eff f n ts1) ts1)"
  define ts4 where "ts4 = ts2[n := (ts2 ! n)\<lparr>isActionRunning := True,
                                   lastExecutionDate := clk (reads h)\<rparr>]"
  have "Q (ts ! n)" using all n by simp
  then have "Q ((ts ! n)\<lparr>elapsedSeconds := elapsedSeconds (ts ! n) + 1\<rparr>)"
    by (rule flags [rotated 2]) simp_all
  with all have q1: "\<forall>t\<in>set ts1. Q t"
    unfolding ts1_def by (rule update_keeps)
  have q2: "\<forall>t\<in>set ts2. Q t"
    unfolding ts2_def using q1 quiet [OF q1] by (cases "tickAction (ts ! n)") simp_all
  have n2: "n < length ts2"
    unfolding ts2_def ts1_def using n
    by (cases "tickAction (ts ! n)") (simp_all add: perform_length)
  have "Q (ts2 ! n)" using q2 n2 by simp
  then have "Q ((ts2 ! n)\<lparr>isActionRunning := True, lastExecutionDate := clk (reads h)\<rparr>)"
    by (rule flags [rotated 2]) simp_all
  with q2 have q4: "\<forall>t\<in>set ts4. Q t"
    unfolding ts4_def by (rule update_keeps)
  have q5: "\<forall>t\<in>set (perform (eff (action (ts2 ! n)) n ts4) ts4). Q t"
    by (rule quiet [OF q4])
  have "fst (executeAction eff clk d n ts h) = ts2 \<or>
        fst (executeAction eff clk d n ts h) = perform (eff (action (ts2 ! n)) n ts4) ts4"
    by (simp add: executeAction_active [OF n act] Let_def ts1_def ts2_def ts4_def
        cong: option.case_cong)
  with q2 q5 show ?thesis by auto
qed


text \<open>
  Claim C6. When \<^verbatim>\<open>checkTimers\<close> reads a current date whose distance from the manager's
  \<^verbatim>\<open>lastExecutionDate\<close>, in seconds, is less than \<^verbatim>\<open>checkTimerInterval / 1000 - 0.4\<close>,
  it returns without changing anything: the manager (its \<^verbatim>\<open>lastExecutionDate\<close>, its
  collection and every field of every timer) is as before and nothing is called,
  whatever the callables of the host would do; only the clock has been read once.
\<close>

theorem checkTimers_skips_early_tick:
  "\<bar>real_of_int (clk (reads h) - managerLastExecutionDate m)\<bar> / 1000
     < real_of_int (checkTimerInterval m) / 1000 - 0.4 \<Longrightarrow>
   checkTimers eff clk m h = (m, h\<lparr>reads := Suc (reads h)\<rparr>) \<and>
   emitted h (snd (checkTimers eff clk m h)) = []"
proof -
  assume "\<bar>real_of_int (clk (reads h) - managerLastExecutionDate m)\<bar> / 1000
     < real_of_int (checkTimerInterval m) / 1000 - 0.4"
  then have "\<bar>real_of_int (clk (reads h) - managerLastExecutionDate m)\<bar> / 1000 + timerTolerance
       < real_of_int (checkTimerInterval m) / 1000"
    unfolding timerTolerance_def by linarith
  then have "checkTimers eff clk m h = (m, h\<lparr>reads := Suc (reads h)\<rparr>)"
    by (rule checkTimers_skip)
  then show ?thesis by (simp add: emitted_def)
qed

theorem checkTimers_skips_early_tick_witness:
  "\<bar>real_of_int (clock0 (reads \<lparr>reads = 1, trace = []\<rparr>) - managerLastExecutionDate sampleManager)\<bar>
      / 1000 < real_of_int (checkTimerInterval sampleManager) / 1000 - 0.4 \<and>
   checkTimers cancelsOnTick clock0 sampleManager \<lparr>reads = 1, trace = []\<rparr>
     = (sampleManager, \<lparr>reads = 2, trace = []\<rparr>) \<and>
   checkTimers inert clock0 sampleManager \<lparr>reads = 1, trace = []\<rparr>
     = (sampleManager, \<lparr>reads = 2, trace = []\<rparr>)"
proof -
  have early:
    "\<bar>real_of_int (clock0 (reads \<lparr>reads = 1, trace = []\<rparr>) - managerLastExecutionDate sampleManager)\<bar>
      / 1000 < real_of_int (checkTimerInterval sampleManager) / 1000 - 0.4"
    by (simp add: clock0_def sampleManager_def)
  from checkTimers_skips_early_tick
    [of clock0 "\<lparr>reads = 1, trace = []\<rparr>" sampleManager cancelsOnTick, OF early]
  have a: "checkTimers cancelsOnTick clock0 sampleManager \<lparr>reads = 1, trace = []\<rparr>
     = (sampleManager, \<lparr>reads = 2, trace = []\<rparr>)"
    by simp
  from checkTimers_skips_early_tick
    [of clock0 "\<lparr>reads = 1, trace = []\<rparr>" sampleManager inert, OF early]
  have b: "checkTimers inert clock0 sampleManager \<lparr>reads = 1, trace = []\<rparr>
     = (sampleManager, \<lparr>reads = 2, trace = []\<rparr>)"
    by simp
  from early a b show ?thesis by (intro conjI)
qed




subsection \<open>\<^verbatim>\<open>addTimer\<close>\<close>

lemma new_Timer_inactive:
  "isActive (fst (new_Timer clk i a isBlock interval mx isInactivity tick h)) = False"
  by (simp add: new_Timer_def newDate_def Let_def)

lemma new_Timer_trace:
  "trace (snd (new_Timer clk i a isBlock interval mx isInactivity tick h)) = trace h"
  by (simp add: new_Timer_def newDate_def Let_def)

lemma addTimer_accepts:
  assumes "0 < interval" and "mx = None \<or> (\<exists>x. mx = Some x \<and> 0 < x)"
    and "\<forall>t\<in>set (timers m). \<not> (timerId t = i \<and> isActive t)"
  shows "timers (fst (addTimer clk i a isBlock interval mx isInactivity tick m h)) =
           timers m @ [fst (new_Timer clk i a isBlock interval mx isInactivity tick h)]"
proof -
  have valid: "\<not> (interval \<le> 0 \<or> (mx \<noteq> None \<and> js_num mx \<le> 0))"
    using assms(1,2) by (auto simp add: js_num_def)
  have "filter (\<lambda>t. timerId t = i \<and> isActive t = True) (timers m) = []"
    using assms(3) by (simp add: filter_empty_conv)
  then have fresh: "length (filter (\<lambda>t. timerId t = i \<and> isActive t = True) (timers m)) = 0"
    by simp
  show ?thesis
    unfolding addTimer_def if_not_P [OF valid] if_P [OF fresh]
    by (simp add: split_beta Let_def)
qed

text \<open>
  Claim C1 says that a valid call of \<^verbatim>\<open>addTimer\<close> appends a new timer which is active
  when \<^verbatim>\<open>addTimer\<close> returns. The timer is appended, but the constructor stores
  \<^verbatim>\<open>false\<close> in \<^verbatim>\<open>isActive\<close>: after \<^verbatim>\<open>addTimer("save", saveProgress, false, 60, null, false)\<close>
  on a new manager the collection holds the one timer \<^verbatim>\<open>"save"\<close> and it is not active.
  The next pass of \<^verbatim>\<open>checkTimers\<close> removes it from the collection, and its action has
  not been called (nor has any other callable, whatever the host's callables do).
\<close>

theorem addTimer_appends_inactive_timer:
  "(case new_TimerManager clock0 \<lparr>reads = 0, trace = []\<rparr> of (m, h) \<Rightarrow>
      (case addTimer clock0 ''save'' ''saveProgress'' False 60 None False None m h of (m', h') \<Rightarrow>
         timers m = [] \<and>
         map timerId (timers m') = [''save''] \<and>
         map isActive (timers m') = [False] \<and>
         trace h' = [] \<and>
         timers (fst (checkTimers eff clock0 m' h')) = [] \<and>
         trace (snd (checkTimers eff clock0 m' h')) = []))"
  by code_simp

text \<open>
  Claim C8. A call of \<^verbatim>\<open>addTimer\<close> with \<^verbatim>\<open>intervalSeconds <= 0\<close>, or with a
  \<^verbatim>\<open>maxSeconds\<close> that is not \<^verbatim>\<open>null\<close> and is \<^verbatim>\<open><= 0\<close>, leaves the manager as it was,
  reports the violation by one \<^verbatim>\<open>console.warn\<close> and returns normally: the only effect is
  the warning.
\<close>

theorem addTimer_rejects_invalid:
  "interval \<le> 0 \<or> (\<exists>x. mx = Some x \<and> x \<le> 0) \<Longrightarrow>
   addTimer clk i a isBlock interval mx isInactivity tick m h =
     (m, h\<lparr>trace := trace h @ [ConsoleWarn (InvalidTimerArguments i interval mx)]\<rparr>)"
  by (auto simp add: addTimer_def js_num_def call_def)

theorem addTimer_rejects_invalid_witness:
  "((0::int) \<le> 0 \<or> (\<exists>x. (None::int option) = Some x \<and> x \<le> 0)) \<and>
   addTimer clock0 ''save'' ''saveProgress'' False 0 None False None sampleManager
       \<lparr>reads = 1, trace = []\<rparr>
     = (sampleManager,
        \<lparr>reads = 1, trace = [ConsoleWarn (InvalidTimerArguments ''save'' 0 None)]\<rparr>) \<and>
   ((60::int) \<le> 0 \<or> (\<exists>x. Some (0::int) = Some x \<and> x \<le> 0)) \<and>
   addTimer clock0 ''intro'' ''closeIntro'' True 60 (Some 0) False None sampleManager
       \<lparr>reads = 1, trace = []\<rparr>
     = (sampleManager,
        \<lparr>reads = 1, trace = [ConsoleWarn (InvalidTimerArguments ''intro'' 60 (Some 0))]\<rparr>)"
  using addTimer_rejects_invalid
      [of 0 None clock0 "''save''" "''saveProgress''" False False None sampleManager
        "\<lparr>reads = 1, trace = []\<rparr>"]
    addTimer_rejects_invalid
      [of 60 "Some 0" clock0 "''intro''" "''closeIntro''" True False None sampleManager
        "\<lparr>reads = 1, trace = []\<rparr>"]
  by simp

subsection \<open>\<^verbatim>\<open>resetInactivityTimers\<close>\<close>

lemma resetInactivityTimer_eq:
  "resetInactivityTimer clk t h =
     (t\<lparr>elapsedSeconds := 0, lastExecutionDate := clk (reads h), isActive := True\<rparr>,
      h\<lparr>reads := Suc (reads h)\<rparr>)"
  by (simp add: resetInactivityTimer_def resetElapsedSeconds_def resetLastExecutionDate_def
      newDate_def Let_def)

lemma resetEach_length: "length (fst (resetEach clk ts h)) = length ts"
  by (induction ts arbitrary: h) (simp_all add: split_beta Let_def)

lemma resetEach_host:
  "snd (resetEach clk ts h) = h\<lparr>reads := reads h + length (filter isInactivityTimer ts)\<rparr>"
  by (induction ts arbitrary: h) (simp_all add: split_beta Let_def resetInactivityTimer_eq)

lemma resetEach_nth:
  "i < length ts \<Longrightarrow>
   fst (resetEach clk ts h) ! i =
     (if isInactivityTimer (ts ! i)
      then (ts ! i)\<lparr>elapsedSeconds := 0,
             lastExecutionDate := clk (reads h + length (filter isInactivityTimer (take i ts))),
             isActive := True\<rparr>
      else ts ! i)"
proof (induction ts arbitrary: h i)
  case Nil
  then show ?case by simp
next
  case (Cons x xs)
  show ?case
  proof (cases i)
    case 0
    then show ?thesis by (simp add: split_beta Let_def resetInactivityTimer_eq)
  next
    case (Suc j)
    then have j: "j < length xs" using Cons.prems by simp
    show ?thesis using Cons.IH [OF j] Suc
      by (simp add: split_beta Let_def resetInactivityTimer_eq)
  qed
qed

lemma resetEach_mem:
  "t' \<in> set (fst (resetEach clk ts h)) \<Longrightarrow> isInactivityTimer t' \<or> t' \<in> set ts"
proof (induction ts arbitrary: h)
  case Nil
  then show ?case by simp
next
  case (Cons x xs)
  let ?r = "if isInactivityTimer x then resetInactivityTimer clk x h else (x, h)"
  from Cons.prems have "t' = fst ?r \<or> t' \<in> set (fst (resetEach clk xs (snd ?r)))"
    by (simp add: split_beta Let_def)
  then show ?case
  proof
    assume "t' = fst ?r"
    then show ?thesis by (cases "isInactivityTimer x") (simp_all add: resetInactivityTimer_eq)
  next
    assume "t' \<in> set (fst (resetEach clk xs (snd ?r)))"
    from Cons.IH [OF this] show ?thesis by auto
  qed
qed

lemma reset_skip:
  assumes "\<bar>clk (reads h) - inactivityLastClearDate p\<bar> < 10000"
  shows "resetInactivityTimers clk rxd p h = Some (p, h\<lparr>reads := Suc (reads h)\<rparr>)"
  by (subst resetInactivityTimers.simps) (simp add: newDate_def assms)

lemma reset_pass:
  assumes "\<not> \<bar>clk (reads h) - inactivityLastClearDate p\<bar> < 10000"
  shows "resetInactivityTimers clk rxd p h =
     Option.bind
       (resetInactivityTimers clk rxd (p\<lparr>inactivityLastClearDate := clk (reads h)\<rparr>)
          (h\<lparr>reads := Suc (reads h)\<rparr>))
       (\<lambda>(p2, h2).
          let warningAlertName =
                (if rxd then ''RxdUserInactivityWarning'' else ''UserInactivityWarning'');
              h3 = call (ClearAlerts [warningAlertName]) h2;
              (ts, h4) = resetEach clk (timers (timerManager p2)) h3
          in Some (p2\<lparr>timerManager := (timerManager p2)\<lparr>timers := ts\<rparr>\<rparr>, h4))"
  by (subst resetInactivityTimers.simps) (simp add: newDate_def assms)

text \<open>
  A call that passes the rate limit, and whose inner call reads the clock less than
  ten seconds later, performs the reset exactly once.
\<close>

lemma reset_once:
  assumes far: "\<not> \<bar>clk (reads h) - inactivityLastClearDate p\<bar> < 10000"
    and near: "\<bar>clk (Suc (reads h)) - clk (reads h)\<bar> < 10000"
  shows "resetInactivityTimers clk rxd p h =
     Some (p\<lparr>inactivityLastClearDate := clk (reads h),
             timerManager := (timerManager p)\<lparr>timers :=
               fst (resetEach clk (timers (timerManager p))
                     (call (ClearAlerts [if rxd then ''RxdUserInactivityWarning''
                                         else ''UserInactivityWarning''])
                        (h\<lparr>reads := Suc (Suc (reads h))\<rparr>)))\<rparr>\<rparr>,
           snd (resetEach clk (timers (timerManager p))
                     (call (ClearAlerts [if rxd then ''RxdUserInactivityWarning''
                                         else ''UserInactivityWarning''])
                        (h\<lparr>reads := Suc (Suc (reads h))\<rparr>))))"
proof -
  let ?p1 = "p\<lparr>inactivityLastClearDate := clk (reads h)\<rparr>"
  let ?h1 = "h\<lparr>reads := Suc (reads h)\<rparr>"
  have "\<bar>clk (reads ?h1) - inactivityLastClearDate ?p1\<bar> < 10000"
    using near by simp
  then have inner:
    "resetInactivityTimers clk rxd ?p1 ?h1 = Some (?p1, ?h1\<lparr>reads := Suc (reads ?h1)\<rparr>)"
    by (rule reset_skip)
  show ?thesis
    unfolding reset_pass [where clk=clk and h=h and p=p, OF far] inner
    by (simp add: Let_def split_beta)
qed

lemma resetEach_fst_reads:
  "reads h = reads h' \<Longrightarrow> fst (resetEach clk ts h) = fst (resetEach clk ts h')"
proof (induction ts arbitrary: h h')
  case Nil
  then show ?case by simp
next
  case (Cons x xs)
  let ?r = "if isInactivityTimer x then resetInactivityTimer clk x h else (x, h)"
  let ?r' = "if isInactivityTimer x then resetInactivityTimer clk x h' else (x, h')"
  have hd: "fst ?r = fst ?r'" and rd: "reads (snd ?r) = reads (snd ?r')"
    using Cons.prems by (simp_all add: resetInactivityTimer_eq)
  from Cons.IH [OF rd] hd show ?case
    by (simp add: split_beta Let_def)
qed

lemma resetEach_overwrite:
  "fst (resetEach clk (fst (resetEach clk ts h1)) h2) = fst (resetEach clk ts h2)"
proof (induction ts arbitrary: h1 h2)
  case Nil
  then show ?case by simp
next
  case (Cons x xs)
  show ?case
    by (cases "isInactivityTimer x")
      (simp_all add: split_beta Let_def resetInactivityTimer_eq Cons.IH)
qed

lemma resetEach_count:
  "length (filter isInactivityTimer (fst (resetEach clk ts h))) =
   length (filter isInactivityTimer ts)"
proof (induction ts arbitrary: h)
  case Nil
  then show ?case by simp
next
  case (Cons x xs)
  show ?case
    by (cases "isInactivityTimer x")
      (simp_all add: split_beta Let_def resetInactivityTimer_eq Cons.IH)
qed


text \<open>
  The general case: the \<open>k\<close> nested calls after the first also pass the limit, each
  reading the clock ten or more seconds after its caller, and the next one does not.
  Every level that passed performs the reset while the recursion unwinds, the outermost
  last.
\<close>

lemma reset_levels:
  assumes "\<not> \<bar>clk (reads h) - inactivityLastClearDate p\<bar> < 10000"
    and "\<forall>j<k. \<not> \<bar>clk (reads h + j + 1) - clk (reads h + j)\<bar> < 10000"
    and "\<bar>clk (reads h + k + 1) - clk (reads h + k)\<bar> < 10000"
  shows "resetInactivityTimers clk rxd p h =
     Some (p\<lparr>inactivityLastClearDate := clk (reads h + k),
             timerManager := (timerManager p)\<lparr>timers :=
               fst (resetEach clk (timers (timerManager p))
                     (h\<lparr>reads := reads h + k + 2 +
                          k * length (filter isInactivityTimer (timers (timerManager p)))\<rparr>))\<rparr>\<rparr>,
           h\<lparr>reads := reads h + k + 2 +
                  (k + 1) * length (filter isInactivityTimer (timers (timerManager p))),
             trace := trace h @ replicate (k + 1) (inactivityAlert rxd)\<rparr>)"
  using assms
proof (induction k arbitrary: p h)
  case 0
  then have far: "\<not> \<bar>clk (reads h) - inactivityLastClearDate p\<bar> < 10000"
    and near: "\<bar>clk (Suc (reads h)) - clk (reads h)\<bar> < 10000"
    by simp_all
  have alert: "ClearAlerts [if rxd then ''RxdUserInactivityWarning'' else ''UserInactivityWarning'']
      = inactivityAlert rxd"
    by (simp add: inactivityAlert_def)
  have "reads (call (inactivityAlert rxd) (h\<lparr>reads := Suc (Suc (reads h))\<rparr>)) =
        reads (h\<lparr>reads := reads h + 0 + 2 +
                 0 * length (filter isInactivityTimer (timers (timerManager p)))\<rparr>)"
    by (simp add: call_def)
  then have ts: "fst (resetEach clk (timers (timerManager p))
                   (call (inactivityAlert rxd) (h\<lparr>reads := Suc (Suc (reads h))\<rparr>))) =
        fst (resetEach clk (timers (timerManager p))
               (h\<lparr>reads := reads h + 0 + 2 +
                 0 * length (filter isInactivityTimer (timers (timerManager p)))\<rparr>))"
    by (rule resetEach_fst_reads)
  show ?case
    unfolding reset_once [where clk=clk and h=h and p=p and rxd=rxd, OF far near] alert ts
    by (simp add: resetEach_host call_def)
next
  case (Suc k)
  let ?ts = "timers (timerManager p)"
  let ?c = "length (filter isInactivityTimer ?ts)"
  let ?p1 = "p\<lparr>inactivityLastClearDate := clk (reads h)\<rparr>"
  let ?h1 = "h\<lparr>reads := Suc (reads h)\<rparr>"
  from Suc.prems have far: "\<not> \<bar>clk (reads h) - inactivityLastClearDate p\<bar> < 10000"
    by simp
  have far1: "\<not> \<bar>clk (reads ?h1) - inactivityLastClearDate ?p1\<bar> < 10000"
    using Suc.prems(2) [rule_format, of 0] by simp
  have fars1: "\<forall>j<k. \<not> \<bar>clk (reads ?h1 + j + 1) - clk (reads ?h1 + j)\<bar> < 10000"
  proof (intro allI impI)
    fix j assume "j < k"
    then have "Suc j < Suc k" by simp
    from Suc.prems(2) [rule_format, OF this] show
      "\<not> \<bar>clk (reads ?h1 + j + 1) - clk (reads ?h1 + j)\<bar> < 10000"
      by simp
  qed
  have near1: "\<bar>clk (reads ?h1 + k + 1) - clk (reads ?h1 + k)\<bar> < 10000"
    using Suc.prems(3) by simp
  define p2 where "p2 = ?p1\<lparr>inactivityLastClearDate := clk (reads ?h1 + k),
      timerManager := (timerManager ?p1)\<lparr>timers :=
        fst (resetEach clk (timers (timerManager ?p1))
              (?h1\<lparr>reads := reads ?h1 + k + 2 +
                 k * length (filter isInactivityTimer (timers (timerManager ?p1)))\<rparr>))\<rparr>\<rparr>"
  define h2 where "h2 = ?h1\<lparr>reads := reads ?h1 + k + 2 +
                  (k + 1) * length (filter isInactivityTimer (timers (timerManager ?p1))),
             trace := trace ?h1 @ replicate (k + 1) (inactivityAlert rxd)\<rparr>"
  have inner: "resetInactivityTimers clk rxd ?p1 ?h1 = Some (p2, h2)"
    unfolding p2_def h2_def by (rule Suc.IH [OF far1 fars1 near1])
  have alert: "ClearAlerts [if rxd then ''RxdUserInactivityWarning'' else ''UserInactivityWarning'']
      = inactivityAlert rxd"
    by (simp add: inactivityAlert_def)
  let ?h3 = "call (inactivityAlert rxd) h2"
  let ?target = "h\<lparr>reads := reads h + Suc k + 2 + Suc k * ?c\<rparr>"
  have outer: "resetInactivityTimers clk rxd p h =
      Some (p2\<lparr>timerManager := (timerManager p2)\<lparr>timers :=
                 fst (resetEach clk (timers (timerManager p2)) ?h3)\<rparr>\<rparr>,
            snd (resetEach clk (timers (timerManager p2)) ?h3))"
    unfolding reset_pass [where clk=clk and h=h and p=p, OF far] inner
    by (simp add: Let_def split_beta alert)
  have ts2: "timers (timerManager p2) =
      fst (resetEach clk ?ts (?h1\<lparr>reads := reads ?h1 + k + 2 + k * ?c\<rparr>))"
    by (simp add: p2_def)
  have rd: "reads ?h3 = reads ?target"
    by (simp add: call_def h2_def)
  have ts: "fst (resetEach clk (timers (timerManager p2)) ?h3) = fst (resetEach clk ?ts ?target)"
    unfolding ts2 resetEach_overwrite by (rule resetEach_fst_reads [OF rd])
  have hs: "snd (resetEach clk (timers (timerManager p2)) ?h3) =
      h\<lparr>reads := reads h + Suc k + 2 + (Suc k + 1) * ?c,
        trace := trace h @ replicate (Suc k + 1) (inactivityAlert rxd)\<rparr>"
    unfolding ts2
    by (simp add: resetEach_host resetEach_count call_def h2_def replicate_append_same)
  have pl: "p2\<lparr>timerManager := (timerManager p2)\<lparr>timers := X\<rparr>\<rparr> =
      p\<lparr>inactivityLastClearDate := clk (reads h + Suc k),
        timerManager := (timerManager p)\<lparr>timers := X\<rparr>\<rparr>" for X
    by (simp add: p2_def)
  show ?case
    unfolding outer ts hs pl ..
qed

text \<open>
  Claim C10. \<^verbatim>\<open>resetInactivityTimers\<close> is rate-limited by
  \<^verbatim>\<open>player.inactivityLastClearDate\<close>. A call that reads a current date less than ten
  seconds from the recorded last clear returns without modifying any timer (nor the
  record of the last clear). A call that reads a current date ten or more seconds from
  it returns with a new last clear recorded and, for every inactivity timer of the
  collection, \<^verbatim>\<open>elapsedSeconds\<close> set to 0, \<^verbatim>\<open>lastExecutionDate\<close> set to the date that
  timer read from the clock, and \<^verbatim>\<open>isActive\<close> set to \<^verbatim>\<open>true\<close>; every other timer is
  as it was.

  The method calls itself once the last clear is recorded, and the nested call is
  rate-limited like any other. The number \<open>k\<close> counts the nested calls that pass the
  limit as well: \<open>k = 0\<close> when the nested call reads the clock less than ten seconds
  after its caller, as a call made at once does. The call returns exactly when some
  nested call is stopped by the limit, which is the hypothesis on \<open>k\<close>.
\<close>

theorem resetInactivityTimers_rate_limited:
  "(\<bar>clk (reads h) - inactivityLastClearDate p\<bar> < 10000 \<longrightarrow>
      resetInactivityTimers clk rxd p h = Some (p, h\<lparr>reads := Suc (reads h)\<rparr>)) \<and>
   (\<bar>clk (reads h) - inactivityLastClearDate p\<bar> \<ge> 10000 \<and>
    (\<forall>j<k. \<bar>clk (reads h + j + 1) - clk (reads h + j)\<bar> \<ge> 10000) \<and>
    \<bar>clk (reads h + k + 1) - clk (reads h + k)\<bar> < 10000 \<longrightarrow>
      (\<exists>p' h'. resetInactivityTimers clk rxd p h = Some (p', h') \<and>
         inactivityLastClearDate p' = clk (reads h + k) \<and>
         length (timers (timerManager p')) = length (timers (timerManager p)) \<and>
         (\<forall>i < length (timers (timerManager p)).
            timers (timerManager p') ! i =
              (let t = timers (timerManager p) ! i
               in if isInactivityTimer t
                  then t\<lparr>elapsedSeconds := 0,
                         lastExecutionDate :=
                           clk (reads h + k + 2 +
                                k * length (filter isInactivityTimer (timers (timerManager p))) +
                                length (filter isInactivityTimer
                                          (take i (timers (timerManager p))))),
                         isActive := True\<rparr>
                  else t))))"
proof (intro conjI impI)
  assume "\<bar>clk (reads h) - inactivityLastClearDate p\<bar> < 10000"
  then show "resetInactivityTimers clk rxd p h = Some (p, h\<lparr>reads := Suc (reads h)\<rparr>)"
    by (rule reset_skip)
next
  assume a: "\<bar>clk (reads h) - inactivityLastClearDate p\<bar> \<ge> 10000 \<and>
    (\<forall>j<k. \<bar>clk (reads h + j + 1) - clk (reads h + j)\<bar> \<ge> 10000) \<and>
    \<bar>clk (reads h + k + 1) - clk (reads h + k)\<bar> < 10000"
  then have far: "\<not> \<bar>clk (reads h) - inactivityLastClearDate p\<bar> < 10000"
    and fars: "\<forall>j<k. \<not> \<bar>clk (reads h + j + 1) - clk (reads h + j)\<bar> < 10000"
    and near: "\<bar>clk (reads h + k + 1) - clk (reads h + k)\<bar> < 10000"
    by (simp_all add: not_less)
  note r = reset_levels [where clk=clk and h=h and p=p and rxd=rxd and k=k, OF far fars near]
  show "\<exists>p' h'. resetInactivityTimers clk rxd p h = Some (p', h') \<and>
         inactivityLastClearDate p' = clk (reads h + k) \<and>
         length (timers (timerManager p')) = length (timers (timerManager p)) \<and>
         (\<forall>i < length (timers (timerManager p)).
            timers (timerManager p') ! i =
              (let t = timers (timerManager p) ! i
               in if isInactivityTimer t
                  then t\<lparr>elapsedSeconds := 0,
                         lastExecutionDate :=
                           clk (reads h + k + 2 +
                                k * length (filter isInactivityTimer (timers (timerManager p))) +
                                length (filter isInactivityTimer
                                          (take i (timers (timerManager p))))),
                         isActive := True\<rparr>
                  else t))"
    unfolding r
    by (simp add: resetEach_length resetEach_nth Let_def)
qed

theorem resetInactivityTimers_rate_limited_witness:
  "(\<bar>clock0 (reads \<lparr>reads = 1, trace = []\<rparr>)
       - inactivityLastClearDate (samplePlayer\<lparr>inactivityLastClearDate := 0\<rparr>)\<bar> < 10000 \<and>
    resetInactivityTimers clock0 True (samplePlayer\<lparr>inactivityLastClearDate := 0\<rparr>)
        \<lparr>reads = 1, trace = []\<rparr>
      = Some (samplePlayer\<lparr>inactivityLastClearDate := 0\<rparr>, \<lparr>reads = 2, trace = []\<rparr>)) \<and>
   (\<bar>clock0 (reads \<lparr>reads = 1, trace = []\<rparr>) - inactivityLastClearDate samplePlayer\<bar> \<ge> 10000 \<and>
    \<bar>clock0 (reads \<lparr>reads = 1, trace = []\<rparr> + 0 + 1)
       - clock0 (reads \<lparr>reads = 1, trace = []\<rparr> + 0)\<bar> < 10000 \<and>
    (\<exists>p' h'. resetInactivityTimers clock0 True samplePlayer \<lparr>reads = 1, trace = []\<rparr>
                = Some (p', h') \<and>
       inactivityLastClearDate p' = 1000 \<and>
       timers (timerManager p') =
         [saveTimer, introTimer,
          idleTimer\<lparr>elapsedSeconds := 0, lastExecutionDate := 3000, isActive := True\<rparr>])) \<and>
   (\<bar>clockJump (reads \<lparr>reads = 1, trace = []\<rparr>) - inactivityLastClearDate samplePlayer\<bar> \<ge> 10000 \<and>
    \<bar>clockJump (reads \<lparr>reads = 1, trace = []\<rparr> + 0 + 1)
       - clockJump (reads \<lparr>reads = 1, trace = []\<rparr> + 0)\<bar> \<ge> 10000 \<and>
    \<bar>clockJump (reads \<lparr>reads = 1, trace = []\<rparr> + 1 + 1)
       - clockJump (reads \<lparr>reads = 1, trace = []\<rparr> + 1)\<bar> < 10000 \<and>
    (\<exists>p' h'. resetInactivityTimers clockJump True samplePlayer \<lparr>reads = 1, trace = []\<rparr>
                = Some (p', h') \<and>
       inactivityLastClearDate p' = 32000 \<and>
       timers (timerManager p') =
         [saveTimer, introTimer,
          idleTimer\<lparr>elapsedSeconds := 0, lastExecutionDate := 35000, isActive := True\<rparr>]))"
proof -
  let ?h = "\<lparr>reads = 1, trace = []\<rparr>"
  let ?q = "samplePlayer\<lparr>inactivityLastClearDate := 0\<rparr>"
  have soon: "\<bar>clock0 (reads ?h) - inactivityLastClearDate ?q\<bar> < 10000"
    by (simp add: clock0_def)
  have late: "\<bar>clock0 (reads ?h) - inactivityLastClearDate samplePlayer\<bar> \<ge> 10000"
    by (simp add: clock0_def samplePlayer_def)
  have near: "\<bar>clock0 (reads ?h + 0 + 1) - clock0 (reads ?h + 0)\<bar> < 10000"
    by (simp add: clock0_def)
  have none: "\<forall>j<0::nat. \<bar>clock0 (reads ?h + j + 1) - clock0 (reads ?h + j)\<bar> \<ge> 10000"
    by simp
  have lateJ: "\<bar>clockJump (reads ?h) - inactivityLastClearDate samplePlayer\<bar> \<ge> 10000"
    by (simp add: clockJump_def samplePlayer_def)
  have jump: "\<bar>clockJump (reads ?h + 0 + 1) - clockJump (reads ?h + 0)\<bar> \<ge> 10000"
    by (simp add: clockJump_def)
  then have jumps: "\<forall>j<1::nat. \<bar>clockJump (reads ?h + j + 1) - clockJump (reads ?h + j)\<bar> \<ge> 10000"
    by simp
  have nearJ: "\<bar>clockJump (reads ?h + 1 + 1) - clockJump (reads ?h + 1)\<bar> < 10000"
    by (simp add: clockJump_def)
  have len: "length (timers (timerManager samplePlayer)) = 3"
    by (simp add: samplePlayer_def sampleManager_def)
  have flags: "\<not> isInactivityTimer saveTimer" "\<not> isInactivityTimer introTimer"
    "isInactivityTimer idleTimer"
    by (simp_all add: saveTimer_def introTimer_def idleTimer_def)
  from resetInactivityTimers_rate_limited [where clk=clock0 and h="?h" and p="?q" and rxd=True] soon
  have first: "resetInactivityTimers clock0 True ?q ?h = Some (?q, \<lparr>reads = 2, trace = []\<rparr>)"
    by simp
  have second: "\<exists>p' h'. resetInactivityTimers clock0 True samplePlayer ?h = Some (p', h') \<and>
       inactivityLastClearDate p' = 1000 \<and>
       timers (timerManager p') =
         [saveTimer, introTimer,
          idleTimer\<lparr>elapsedSeconds := 0, lastExecutionDate := 3000, isActive := True\<rparr>]"
  proof -
    from resetInactivityTimers_rate_limited
      [where clk=clock0 and h="?h" and p=samplePlayer and rxd=True and k=0] late none near
    obtain p' h' where r: "resetInactivityTimers clock0 True samplePlayer ?h = Some (p', h')"
      and d: "inactivityLastClearDate p' = clock0 (reads ?h + 0)"
      and l: "length (timers (timerManager p')) = length (timers (timerManager samplePlayer))"
      and n: "\<forall>i < length (timers (timerManager samplePlayer)).
            timers (timerManager p') ! i =
              (let t = timers (timerManager samplePlayer) ! i
               in if isInactivityTimer t
                  then t\<lparr>elapsedSeconds := 0,
                         lastExecutionDate :=
                           clock0 (reads ?h + 0 + 2 +
                                0 * length (filter isInactivityTimer (timers (timerManager samplePlayer))) +
                                length (filter isInactivityTimer
                                          (take i (timers (timerManager samplePlayer))))),
                         isActive := True\<rparr>
                  else t)"
      by blast
    have n0: "timers (timerManager p') ! 0 = saveTimer"
      using n [rule_format, of 0] flags by (simp add: samplePlayer_def sampleManager_def)
    have n1: "timers (timerManager p') ! Suc 0 = introTimer"
      using n [rule_format, of "Suc 0"] flags by (simp add: samplePlayer_def sampleManager_def)
    have n2: "timers (timerManager p') ! Suc (Suc 0) =
        idleTimer\<lparr>elapsedSeconds := 0, lastExecutionDate := 3000, isActive := True\<rparr>"
      using n [rule_format, of "Suc (Suc 0)"] flags
      by (simp add: samplePlayer_def sampleManager_def clock0_def)
    have "timers (timerManager p') =
           [saveTimer, introTimer,
            idleTimer\<lparr>elapsedSeconds := 0, lastExecutionDate := 3000, isActive := True\<rparr>]"
      using l len n0 n1 n2 by (simp add: list_eq_iff_nth_eq less_Suc_eq numeral_3_eq_3)
    moreover have "inactivityLastClearDate p' = 1000"
      using d by (simp add: clock0_def)
    ultimately show ?thesis using r by blast
  qed
  have third: "\<exists>p' h'. resetInactivityTimers clockJump True samplePlayer ?h = Some (p', h') \<and>
       inactivityLastClearDate p' = 32000 \<and>
       timers (timerManager p') =
         [saveTimer, introTimer,
          idleTimer\<lparr>elapsedSeconds := 0, lastExecutionDate := 35000, isActive := True\<rparr>]"
  proof -
    from resetInactivityTimers_rate_limited
      [where clk=clockJump and h="?h" and p=samplePlayer and rxd=True and k=1] lateJ jumps nearJ
    obtain p' h' where r: "resetInactivityTimers clockJump True samplePlayer ?h = Some (p', h')"
      and d: "inactivityLastClearDate p' = clockJump (reads ?h + 1)"
      and l: "length (timers (timerManager p')) = length (timers (timerManager samplePlayer))"
      and n: "\<forall>i < length (timers (timerManager samplePlayer)).
            timers (timerManager p') ! i =
              (let t = timers (timerManager samplePlayer) ! i
               in if isInactivityTimer t
                  then t\<lparr>elapsedSeconds := 0,
                         lastExecutionDate :=
                           clockJump (reads ?h + 1 + 2 +
                                1 * length (filter isInactivityTimer (timers (timerManager samplePlayer))) +
                                length (filter isInactivityTimer
                                          (take i (timers (timerManager samplePlayer))))),
                         isActive := True\<rparr>
                  else t)"
      by blast
    have n0: "timers (timerManager p') ! 0 = saveTimer"
      using n [rule_format, of 0] flags by (simp add: samplePlayer_def sampleManager_def)
    have n1: "timers (timerManager p') ! Suc 0 = introTimer"
      using n [rule_format, of "Suc 0"] flags by (simp add: samplePlayer_def sampleManager_def)
    have n2: "timers (timerManager p') ! Suc (Suc 0) =
        idleTimer\<lparr>elapsedSeconds := 0, lastExecutionDate := 35000, isActive := True\<rparr>"
      using n [rule_format, of "Suc (Suc 0)"] flags
      by (simp add: samplePlayer_def sampleManager_def clockJump_def)
    have "timers (timerManager p') =
           [saveTimer, introTimer,
            idleTimer\<lparr>elapsedSeconds := 0, lastExecutionDate := 35000, isActive := True\<rparr>]"
      using l len n0 n1 n2 by (simp add: list_eq_iff_nth_eq less_Suc_eq numeral_3_eq_3)
    moreover have "inactivityLastClearDate p' = 32000"
      using d by (simp add: clockJump_def)
    ultimately show ?thesis using r by blast
  qed
  from soon first late near second lateJ jump nearJ third show ?thesis by (intro conjI)
qed

subsection \<open>Which operations activate a timer\<close>



lemma sameTimer_refl: "sameTimer t t"
  by (simp add: sameTimer_def)

lemma withManager_fst:
  "fst (withManager f w) = (fst w)\<lparr>timerManager := fst (f (timerManager (fst w)) (snd w))\<rparr>"
  by (simp add: withManager_def split_beta Let_def)

lemma withManager_snd: "snd (withManager f w) = snd (f (timerManager (fst w)) (snd w))"
  by (simp add: withManager_def split_beta Let_def)

lemma sameTimer_trans: "sameTimer a b \<Longrightarrow> sameTimer b c \<Longrightarrow> sameTimer a c"
  by (simp add: sameTimer_def)

lemma pointwise_mem:
  assumes "length ts' = length ts" and "\<forall>i<length ts. R (ts ! i) (ts' ! i)" and "t' \<in> set ts'"
  shows "\<exists>t\<in>set ts. R t t'"
proof -
  from assms(3) obtain i where "i < length ts'" and "ts' ! i = t'"
    by (auto simp add: in_set_conv_nth)
  with assms(1,2) have "i < length ts" and "R (ts ! i) t'" by auto
  then show ?thesis using nth_mem [of i ts] by blast
qed

text \<open>With callables that leave the scheduler alone, \<^verbatim>\<open>executeAction\<close> writes one timer.\<close>

lemma executeAction_inert_same:
  "length (fst (executeAction inert clk d n ts h)) = length ts \<and>
   (\<forall>i<length ts. sameTimer (ts ! i) (fst (executeAction inert clk d n ts h) ! i) \<and>
      isActive (fst (executeAction inert clk d n ts h) ! i) = isActive (ts ! i))"
proof (cases "n < length ts \<and> isActive (ts ! n)")
  case False
  then show ?thesis by (simp add: executeAction_inactive sameTimer_refl)
next
  case True
  then have n: "n < length ts" and act: "isActive (ts ! n)" by simp_all
  show ?thesis
    using n act
    by (simp add: executeAction_active [OF n act] Let_def perform_inert nth_list_update
        sameTimer_def split: option.splits)
qed

lemma executeAction_inert_trace:
  assumes "ActionCalled f x \<in> set (trace (snd (executeAction inert clk d n ts h)))"
  shows "ActionCalled f x \<in> set (trace h) \<or>
         (\<exists>t\<in>set ts. isActive t \<and> isInactivityTimer x = isInactivityTimer t)"
proof (cases "n < length ts \<and> isActive (ts ! n)")
  case False
  with assms show ?thesis by (simp add: executeAction_inactive)
next
  case True
  then have n: "n < length ts" and act: "isActive (ts ! n)" by simp_all
  from assms have "ActionCalled f x \<in> set (trace h) \<or>
      isInactivityTimer x = isInactivityTimer (ts ! n)"
    using n act
    by (auto simp add: executeAction_active [OF n act] Let_def perform_inert call_def
        split: option.splits if_splits)
  with act n show ?thesis using nth_mem [of n ts] by blast
qed

lemma executeActions_inert_same:
  "length (fst (executeActions inert clk d ns ts h)) = length ts \<and>
   (\<forall>i<length ts. sameTimer (ts ! i) (fst (executeActions inert clk d ns ts h) ! i) \<and>
      isActive (fst (executeActions inert clk d ns ts h) ! i) = isActive (ts ! i))"
proof (induction ns arbitrary: ts h)
  case Nil
  then show ?case by (simp add: sameTimer_refl)
next
  case (Cons n ns)
  define ts1 where "ts1 = fst (executeAction inert clk d n ts h)"
  define h1 where "h1 = snd (executeAction inert clk d n ts h)"
  define ts2 where "ts2 = fst (executeActions inert clk d ns ts1 h1)"
  have one: "length ts1 = length ts"
    "\<forall>i<length ts. sameTimer (ts ! i) (ts1 ! i) \<and> isActive (ts1 ! i) = isActive (ts ! i)"
    unfolding ts1_def using executeAction_inert_same [of clk d n ts h] by simp_all
  have two: "length ts2 = length ts1"
    "\<forall>i<length ts1. sameTimer (ts1 ! i) (ts2 ! i) \<and> isActive (ts2 ! i) = isActive (ts1 ! i)"
    unfolding ts2_def using Cons.IH [of ts1 h1] by simp_all
  have res: "fst (executeActions inert clk d (n # ns) ts h) = ts2"
    by (simp add: split_beta ts1_def h1_def ts2_def)
  have "length ts2 = length ts" using one(1) two(1) by simp
  moreover have "\<forall>i<length ts. sameTimer (ts ! i) (ts2 ! i) \<and> isActive (ts2 ! i) = isActive (ts ! i)"
  proof (intro allI impI)
    fix i assume i: "i < length ts"
    then have "sameTimer (ts ! i) (ts1 ! i)" "isActive (ts1 ! i) = isActive (ts ! i)"
      using one(2) by simp_all
    moreover have "sameTimer (ts1 ! i) (ts2 ! i)" "isActive (ts2 ! i) = isActive (ts1 ! i)"
      using two(2) i one(1) by simp_all
    ultimately show "sameTimer (ts ! i) (ts2 ! i) \<and> isActive (ts2 ! i) = isActive (ts ! i)"
      using sameTimer_trans by simp
  qed
  ultimately show ?case unfolding res by simp
qed

lemma executeActions_inert_trace:
  "ActionCalled f x \<in> set (trace (snd (executeActions inert clk d ns ts h))) \<Longrightarrow>
   ActionCalled f x \<in> set (trace h) \<or>
   (\<exists>t\<in>set ts. isActive t \<and> isInactivityTimer x = isInactivityTimer t)"
proof (induction ns arbitrary: ts h)
  case Nil
  then show ?case by simp
next
  case (Cons n ns)
  define ts1 where "ts1 = fst (executeAction inert clk d n ts h)"
  define h1 where "h1 = snd (executeAction inert clk d n ts h)"
  from Cons.prems have "ActionCalled f x \<in> set (trace (snd (executeActions inert clk d ns ts1 h1)))"
    by (simp add: split_beta ts1_def h1_def)
  from Cons.IH [OF this] have
    "ActionCalled f x \<in> set (trace h1) \<or>
      (\<exists>t\<in>set ts1. isActive t \<and> isInactivityTimer x = isInactivityTimer t)" .
  then show ?case
  proof
    assume "ActionCalled f x \<in> set (trace h1)"
    then show ?thesis unfolding h1_def by (rule executeAction_inert_trace)
  next
    assume "\<exists>t\<in>set ts1. isActive t \<and> isInactivityTimer x = isInactivityTimer t"
    then obtain t1 where t1: "t1 \<in> set ts1" "isActive t1"
      "isInactivityTimer x = isInactivityTimer t1" by blast
    have "length ts1 = length ts"
      "\<forall>i<length ts. sameTimer (ts ! i) (ts1 ! i) \<and> isActive (ts1 ! i) = isActive (ts ! i)"
      unfolding ts1_def using executeAction_inert_same [of clk d n ts h] by simp_all
    from pointwise_mem [OF this t1(1)] obtain t where
      "t \<in> set ts" "sameTimer t t1" "isActive t1 = isActive t" by blast
    with t1 show ?thesis unfolding sameTimer_def by auto
  qed
qed

lemma checkTimers_same:
  assumes "t' \<in> set (timers (fst (checkTimers inert clk m h)))"
  shows "\<exists>t\<in>set (timers m). sameTimer t t' \<and> isActive t' = isActive t"
proof (cases "\<bar>real_of_int (clk (reads h) - managerLastExecutionDate m)\<bar> / 1000 + timerTolerance
       < real_of_int (checkTimerInterval m) / 1000")
  case True
  from assms have "t' \<in> set (timers m)"
    unfolding checkTimers_skip [where clk=clk and h=h and m=m, OF True] by simp
  then show ?thesis using sameTimer_refl by blast
next
  case False
  let ?kept = "filter (\<lambda>x. isActive x \<or> isInactivityTimer x) (timers m)"
  let ?ts = "fst (executeActions inert clk (clk (reads h)) (activePositions ?kept) ?kept
                (h\<lparr>reads := Suc (reads h)\<rparr>))"
  from assms have mem: "t' \<in> set ?ts"
    unfolding checkTimers_pass [where clk=clk and h=h and m=m, OF False] by simp
  have "length ?ts = length ?kept"
    "\<forall>i<length ?kept. sameTimer (?kept ! i) (?ts ! i) \<and> isActive (?ts ! i) = isActive (?kept ! i)"
    using executeActions_inert_same
      [of clk "clk (reads h)" "activePositions ?kept" ?kept "h\<lparr>reads := Suc (reads h)\<rparr>"]
    by simp_all
  from pointwise_mem [OF this mem] obtain t where
    "t \<in> set ?kept" "sameTimer t t'" "isActive t' = isActive t" by blast
  then show ?thesis by auto
qed

lemma checkTimers_trace:
  assumes "ActionCalled f x \<in> set (trace (snd (checkTimers inert clk m h)))"
  shows "ActionCalled f x \<in> set (trace h) \<or>
         (\<exists>t\<in>set (timers m). isActive t \<and> isInactivityTimer x = isInactivityTimer t)"
proof (cases "\<bar>real_of_int (clk (reads h) - managerLastExecutionDate m)\<bar> / 1000 + timerTolerance
       < real_of_int (checkTimerInterval m) / 1000")
  case True
  from assms have "ActionCalled f x \<in> set (trace h)"
    unfolding checkTimers_skip [where clk=clk and h=h and m=m, OF True] by simp
  then show ?thesis by blast
next
  case False
  let ?kept = "filter (\<lambda>x. isActive x \<or> isInactivityTimer x) (timers m)"
  from assms have "ActionCalled f x \<in> set (trace (snd (executeActions inert clk (clk (reads h))
                    (activePositions ?kept) ?kept (h\<lparr>reads := Suc (reads h)\<rparr>))))"
    unfolding checkTimers_pass [where clk=clk and h=h and m=m, OF False] by simp
  from executeActions_inert_trace [OF this] show ?thesis by auto
qed

lemma addTimer_same:
  assumes "t' \<in> set (timers (fst (addTimer clk i a isBlock interval mx isInactivity tick m h)))"
  shows "t' \<in> set (timers m) \<or> isActive t' = False"
  using assms new_Timer_inactive [of clk i a isBlock interval mx isInactivity tick h]
  by (auto simp add: addTimer_def split_beta Let_def split: if_splits)

lemma addTimer_trace:
  assumes "ActionCalled f x \<in> set (trace (snd (addTimer clk i a isBlock interval mx isInactivity tick m h)))"
  shows "ActionCalled f x \<in> set (trace h)"
  using assms new_Timer_trace [of clk i a isBlock interval mx isInactivity tick h]
  by (auto simp add: addTimer_def split_beta Let_def call_def split: if_splits)

lemma onTimer_same:
  assumes f: "\<And>t h. sameTimer t (fst (f t h)) \<and> (isActive (fst (f t h)) \<longrightarrow> isActive t)"
    and t': "t' \<in> set (timers (fst (onTimer n f m h)))"
  shows "\<exists>t\<in>set (timers m). sameTimer t t' \<and> (isActive t' \<longrightarrow> isActive t)"
proof (cases "n < length (timers m)")
  case True
  with t' have "t' \<in> set ((timers m)[n := fst (f (timers m ! n) h)])"
    by (simp add: onTimer_def split_beta Let_def)
  then have "t' = fst (f (timers m ! n) h) \<or> t' \<in> set (timers m)"
    using set_update_subset_insert [of "timers m" n "fst (f (timers m ! n) h)"] by auto
  then show ?thesis
  proof
    assume "t' = fst (f (timers m ! n) h)"
    moreover have "timers m ! n \<in> set (timers m)" using True by simp
    ultimately show ?thesis using f [of "timers m ! n" h] by blast
  next
    assume "t' \<in> set (timers m)"
    then show ?thesis using sameTimer_refl by blast
  qed
next
  case False
  with t' have "t' \<in> set (timers m)" by (simp add: onTimer_def)
  then show ?thesis using sameTimer_refl by blast
qed

lemma cancel_same: "sameTimer t (cancel t) \<and> isActive (cancel t) = False"
  by (simp add: cancel_def sameTimer_def)

lemma executeAction_resume_same:
  "sameTimer t (executeAction_resume t) \<and> (isActive (executeAction_resume t) \<longrightarrow> isActive t)"
  by (simp add: executeAction_resume_def sameTimer_def Let_def)

lemma cancelWhere_same:
  assumes "t' \<in> set (timers (cancelWhere q m))"
  shows "\<exists>t\<in>set (timers m). sameTimer t t' \<and> (isActive t' \<longrightarrow> isActive t)"
proof -
  from assms obtain t where t: "t \<in> set (timers m)" and e: "t' = (if q t then cancel t else t)"
    by (auto simp add: cancelWhere_def)
  have "sameTimer t t' \<and> (isActive t' \<longrightarrow> isActive t)"
    using e cancel_same [of t] sameTimer_refl [of t] by (cases "q t") simp_all
  with t show ?thesis by blast
qed


lemma onTimer_trace_const:
  "trace (snd (onTimer n (\<lambda>t h. (g t, h)) m h)) = trace h"
  by (simp add: onTimer_def split_beta Let_def)

lemma onCollection_fst: "timers (fst (onCollection g m h)) = fst (g (timers m) h)"
  by (simp add: onCollection_def split_beta)

lemma onCollection_snd: "snd (onCollection g m h) = snd (g (timers m) h)"
  by (simp add: onCollection_def split_beta)

lemma step_same:
  assumes "x \<noteq> ResetInactivityTimers"
    and "apply_op inert clk rxd x w = Some w'"
    and "t' \<in> set (timers (timerManager (fst w')))"
    and "isActive t'"
  shows "\<exists>t\<in>set (timers (timerManager (fst w))). isActive t \<and> sameTimer t t'"
proof (cases x)
  case (AddTimer i a isBlock interval mx isInactivity tick)
  with assms have "t' \<in> set (timers (fst (addTimer clk i a isBlock interval mx isInactivity tick
      (timerManager (fst w)) (snd w))))"
    by (auto simp add: withManager_fst)
  from addTimer_same [OF this] assms(4) show ?thesis using sameTimer_refl by blast
next
  case CheckTimers
  with assms have "t' \<in> set (timers (fst (checkTimers inert clk (timerManager (fst w)) (snd w))))"
    by (auto simp add: withManager_fst)
  from checkTimers_same [OF this] assms(4) show ?thesis by auto
next
  case (ExecuteAction n d)
  let ?ts = "timers (timerManager (fst w))"
  let ?ts' = "fst (executeAction inert clk d n ?ts (snd w))"
  from ExecuteAction assms have mem: "t' \<in> set ?ts'"
    by (auto simp add: withManager_fst onCollection_fst)
  have "length ?ts' = length ?ts"
    "\<forall>i<length ?ts. sameTimer (?ts ! i) (?ts' ! i) \<and> isActive (?ts' ! i) = isActive (?ts ! i)"
    using executeAction_inert_same [of clk d n ?ts "snd w"] by simp_all
  from pointwise_mem [OF this mem] assms(4) show ?thesis by auto
next
  case (ActionSettled n)
  let ?g = "\<lambda>t (h::host). (if isActionRunning t then executeAction_resume t else t, h)"
  from ActionSettled assms
  have "t' \<in> set (timers (fst (onTimer n ?g (timerManager (fst w)) (snd w))))"
    by (auto simp add: withManager_fst)
  moreover have "\<And>t h. sameTimer t (fst (?g t h)) \<and> (isActive (fst (?g t h)) \<longrightarrow> isActive t)"
    using executeAction_resume_same sameTimer_refl by simp
  ultimately have "\<exists>t\<in>set (timers (timerManager (fst w))). sameTimer t t' \<and> (isActive t' \<longrightarrow> isActive t)"
    by (rule onTimer_same [rotated])
  with assms(4) show ?thesis by blast
next
  case (Cancel n)
  let ?g = "\<lambda>t (h::host). (cancel t, h)"
  from Cancel assms
  have "t' \<in> set (timers (fst (onTimer n ?g (timerManager (fst w)) (snd w))))"
    by (auto simp add: withManager_fst)
  moreover have "\<And>t h. sameTimer t (fst (?g t h)) \<and> (isActive (fst (?g t h)) \<longrightarrow> isActive t)"
    using cancel_same by simp
  ultimately have "\<exists>t\<in>set (timers (timerManager (fst w))). sameTimer t t' \<and> (isActive t' \<longrightarrow> isActive t)"
    by (rule onTimer_same [rotated])
  with assms(4) show ?thesis by blast
next
  case (CancelTimer i)
  with assms have "t' \<in> set (timers (cancelWhere (\<lambda>x. Some (timerId x) = i) (timerManager (fst w))))"
    by (auto simp add: withManager_fst cancelTimer_def)
  from cancelWhere_same [OF this] assms(4) show ?thesis by blast
next
  case (CancelTimers ids)
  with assms have "t' \<in> set (timers (cancelWhere (\<lambda>x. timerId x \<in> set ids) (timerManager (fst w))))"
    by (auto simp add: withManager_fst cancelTimers_def)
  from cancelWhere_same [OF this] assms(4) show ?thesis by blast
next
  case CancelBlockTimers
  with assms have "t' \<in> set (timers (cancelWhere (\<lambda>x. isBlockTimer x) (timerManager (fst w))))"
    by (auto simp add: withManager_fst cancelBlockTimers_def)
  from cancelWhere_same [OF this] assms(4) show ?thesis by blast
next
  case ResetInactivityTimers
  with assms(1) show ?thesis by simp
qed

lemma step_trace:
  assumes "x \<noteq> ResetInactivityTimers"
    and "apply_op inert clk rxd x w = Some w'"
    and "ActionCalled f y \<in> set (trace (snd w'))"
  shows "ActionCalled f y \<in> set (trace (snd w)) \<or>
         (\<exists>t\<in>set (timers (timerManager (fst w))). isActive t \<and>
            isInactivityTimer y = isInactivityTimer t)"
proof (cases x)
  case (AddTimer i a isBlock interval mx isInactivity tick)
  with assms have "ActionCalled f y \<in> set (trace (snd (addTimer clk i a isBlock interval mx
      isInactivity tick (timerManager (fst w)) (snd w))))"
    by (auto simp add: withManager_snd)
  from addTimer_trace [OF this] show ?thesis by blast
next
  case CheckTimers
  with assms have "ActionCalled f y \<in> set (trace (snd (checkTimers inert clk (timerManager (fst w)) (snd w))))"
    by (auto simp add: withManager_snd)
  from checkTimers_trace [OF this] show ?thesis .
next
  case (ExecuteAction n d)
  with assms have "ActionCalled f y \<in> set (trace (snd (executeAction inert clk d n
      (timers (timerManager (fst w))) (snd w))))"
    by (auto simp add: withManager_snd onCollection_snd)
  from executeAction_inert_trace [OF this] show ?thesis .
next
  case (ActionSettled n)
  with assms show ?thesis by (auto simp add: withManager_snd onTimer_trace_const)
next
  case (Cancel n)
  with assms show ?thesis by (auto simp add: withManager_snd onTimer_trace_const)
next
  case (CancelTimer i)
  with assms show ?thesis by (auto simp add: withManager_snd)
next
  case (CancelTimers ids)
  with assms show ?thesis by (auto simp add: withManager_snd)
next
  case CancelBlockTimers
  with assms show ?thesis by (auto simp add: withManager_snd)
next
  case ResetInactivityTimers
  with assms(1) show ?thesis by simp
qed


lemma reset_result:
  assumes "resetInactivityTimers clk rxd p h = Some y"
  shows "(\<forall>t'\<in>set (timers (timerManager (fst y))).
            isInactivityTimer t' \<or> t' \<in> set (timers (timerManager p))) \<and>
         (\<forall>f x. ActionCalled f x \<in> set (trace (snd y)) \<longrightarrow> ActionCalled f x \<in> set (trace h))"
  using assms
proof (induct rule: resetInactivityTimers.raw_induct [rotated, consumes 1, case_names body])
  case (body self clk rxd p h y)
  note IH = body(1) and eq = body(2)
  let ?now = "clk (reads h)"
  let ?h1 = "h\<lparr>reads := Suc (reads h)\<rparr>"
  show ?case
  proof (cases "\<bar>?now - inactivityLastClearDate p\<bar> < 10000")
    case True
    with eq have "y = (p, ?h1)" by (simp add: newDate_def)
    then show ?thesis by simp
  next
    case False
    let ?p1 = "p\<lparr>inactivityLastClearDate := ?now\<rparr>"
    let ?alert = "ClearAlerts [if rxd then ''RxdUserInactivityWarning'' else ''UserInactivityWarning'']"
    from False eq obtain p2 h2 where
      inner: "self clk rxd ?p1 ?h1 = Some (p2, h2)" and
      y: "y = (p2\<lparr>timerManager := (timerManager p2)\<lparr>timers :=
                 fst (resetEach clk (timers (timerManager p2)) (call ?alert h2))\<rparr>\<rparr>,
               snd (resetEach clk (timers (timerManager p2)) (call ?alert h2)))"
      by (auto simp add: newDate_def Let_def split_beta bind_eq_Some_conv)
    from IH [OF inner] have
      ih1: "\<forall>t'\<in>set (timers (timerManager p2)). isInactivityTimer t' \<or> t' \<in> set (timers (timerManager p))"
      and ih2: "\<forall>f x. ActionCalled f x \<in> set (trace h2) \<longrightarrow> ActionCalled f x \<in> set (trace h)"
      by simp_all
    have a: "\<forall>t'\<in>set (timers (timerManager (fst y))).
            isInactivityTimer t' \<or> t' \<in> set (timers (timerManager p))"
    proof
      fix t' assume "t' \<in> set (timers (timerManager (fst y)))"
      then have "t' \<in> set (fst (resetEach clk (timers (timerManager p2)) (call ?alert h2)))"
        by (simp add: y)
      from resetEach_mem [OF this] ih1
      show "isInactivityTimer t' \<or> t' \<in> set (timers (timerManager p))" by blast
    qed
    have "trace (snd y) = trace h2 @ [?alert]"
      by (simp add: y resetEach_host call_def)
    with ih2 have b: "\<forall>f x. ActionCalled f x \<in> set (trace (snd y)) \<longrightarrow> ActionCalled f x \<in> set (trace h)"
      by auto
    from a b show ?thesis by blast
  qed
qed

lemma step_invariant:
  assumes inv: "noStrayActivity w" and step: "apply_op inert clk rxd x w = Some w'"
  shows "noStrayActivity w'"
proof (cases "x = ResetInactivityTimers")
  case True
  with step have r: "resetInactivityTimers clk rxd (fst w) (snd w) = Some w'" by simp
  note res = reset_result [OF r]
  have "\<forall>t\<in>set (timers (timerManager (fst w'))). isInactivityTimer t = False \<longrightarrow> isActive t = False"
  proof (intro ballI impI)
    fix t assume "t \<in> set (timers (timerManager (fst w')))" and n: "isInactivityTimer t = False"
    with res have "t \<in> set (timers (timerManager (fst w)))" by blast
    with inv n show "isActive t = False" unfolding noStrayActivity_def by blast
  qed
  moreover have "\<forall>f t. ActionCalled f t \<in> set (trace (snd w')) \<longrightarrow> isInactivityTimer t"
    using res inv unfolding noStrayActivity_def by blast
  ultimately show ?thesis unfolding noStrayActivity_def by blast
next
  case False
  have "\<forall>t\<in>set (timers (timerManager (fst w'))). isInactivityTimer t = False \<longrightarrow> isActive t = False"
  proof (intro ballI impI)
    fix t' assume m: "t' \<in> set (timers (timerManager (fst w')))" and n: "isInactivityTimer t' = False"
    show "isActive t' = False"
    proof (rule ccontr)
      assume "isActive t' \<noteq> False"
      then have "isActive t'" by simp
      from step_same [OF False step m this] obtain t where
        "t \<in> set (timers (timerManager (fst w)))" "isActive t" "sameTimer t t'" by blast
      with inv n show False unfolding noStrayActivity_def sameTimer_def by auto
    qed
  qed
  moreover have "\<forall>f t. ActionCalled f t \<in> set (trace (snd w')) \<longrightarrow> isInactivityTimer t"
  proof (intro allI impI)
    fix f y assume "ActionCalled f y \<in> set (trace (snd w'))"
    from step_trace [OF False step this] inv show "isInactivityTimer y"
      unfolding noStrayActivity_def by auto
  qed
  ultimately show ?thesis unfolding noStrayActivity_def by blast
qed

lemma run_invariant:
  "noStrayActivity w \<Longrightarrow> run inert clk rxd xs w = Some w' \<Longrightarrow> noStrayActivity w'"
proof (induction xs arbitrary: w)
  case Nil
  then show ?case by simp
next
  case (Cons x xs)
  from Cons.prems(2) obtain w1 where s: "apply_op inert clk rxd x w = Some w1"
    and r: "run inert clk rxd xs w1 = Some w'"
    by (auto split: option.splits)
  from step_invariant [OF Cons.prems(1) s] have "noStrayActivity w1" .
  from Cons.IH [OF this r] show ?case .
qed

lemma startup_invariant: "noStrayActivity (startup clk lastClear)"
  by (simp add: noStrayActivity_def startup_def new_TimerManager_def newDate_def Let_def)


subsection \<open>Hosts whose callables act like the public operations\<close>

text \<open>
  The invariant of the reachable states does not depend on the callables being inert.
  It holds for every host whose callables write and push as the public operations do:
  a write keeps the fields that identify a timer and sets \<^verbatim>\<open>isActive\<close> on inactivity timers
  only (as \<^verbatim>\<open>resetInactivityTimers\<close> does), and a pushed timer is not active (as after
  \<^verbatim>\<open>addTimer\<close>).
\<close>

lemma perform_mem:
  assumes "t' \<in> set (perform e ts)"
  shows "(\<exists>i<length ts. t' = fst e i (ts ! i)) \<or> t' \<in> set (snd e)"
  using assms by (auto simp add: perform_def in_set_enumerate_eq)

lemma likeOperations_quiet:
  assumes like: "likeOperations eff"
    and all: "\<forall>t\<in>set ts. isActive t \<longrightarrow> isInactivityTimer t"
  shows "\<forall>t\<in>set (perform (eff f n ts) ts). isActive t \<longrightarrow> isInactivityTimer t"
proof (intro ballI impI)
  fix t' assume mem: "t' \<in> set (perform (eff f n ts) ts)" and act: "isActive t'"
  from perform_mem [OF mem] show "isInactivityTimer t'"
  proof
    assume "\<exists>i<length ts. t' = fst (eff f n ts) i (ts ! i)"
    then obtain i where i: "i < length ts" and t': "t' = fst (eff f n ts) i (ts ! i)" by blast
    from like have s: "sameTimer (ts ! i) t'"
      and a: "isActive t' \<longrightarrow> isActive (ts ! i) \<or> isInactivityTimer (ts ! i)"
      unfolding likeOperations_def t' by blast+
    from a act have "isActive (ts ! i) \<or> isInactivityTimer (ts ! i)" by simp
    with all i have "isInactivityTimer (ts ! i)" using nth_mem [of i ts] by blast
    with s show ?thesis by (simp add: sameTimer_def)
  next
    assume "t' \<in> set (snd (eff f n ts))"
    with like have "\<not> isActive t'" unfolding likeOperations_def by blast
    with act show ?thesis by simp
  qed
qed

lemma executeAction_noStray:
  assumes like: "likeOperations eff"
    and all: "\<forall>t\<in>set ts. isActive t \<longrightarrow> isInactivityTimer t"
    and tr: "\<forall>f x. ActionCalled f x \<in> set (trace h) \<longrightarrow> isInactivityTimer x"
  shows "(\<forall>t\<in>set (fst (executeAction eff clk d n ts h)). isActive t \<longrightarrow> isInactivityTimer t) \<and>
         (\<forall>f x. ActionCalled f x \<in> set (trace (snd (executeAction eff clk d n ts h)))
            \<longrightarrow> isInactivityTimer x)"
proof -
  have flags: "\<And>t t'. isActive t' = isActive t \<Longrightarrow>
      isInactivityTimer t' = isInactivityTimer t \<Longrightarrow>
      isActive t \<longrightarrow> isInactivityTimer t \<Longrightarrow> isActive t' \<longrightarrow> isInactivityTimer t'"
    by simp
  have quiet: "\<And>f n ts. \<forall>t\<in>set ts. isActive t \<longrightarrow> isInactivityTimer t \<Longrightarrow>
      \<forall>t\<in>set (perform (eff f n ts) ts). isActive t \<longrightarrow> isInactivityTimer t"
    using like by (rule likeOperations_quiet)
  have first: "\<forall>t\<in>set (fst (executeAction eff clk d n ts h)). isActive t \<longrightarrow> isInactivityTimer t"
    using flags quiet all
    by (rule executeAction_keeps [where Q="\<lambda>t. isActive t \<longrightarrow> isInactivityTimer t"])
  have second: "\<forall>f x. ActionCalled f x \<in> set (trace (snd (executeAction eff clk d n ts h)))
            \<longrightarrow> isInactivityTimer x"
  proof (cases "n < length ts \<and> isActive (ts ! n)")
    case False
    then show ?thesis using tr by (simp add: executeAction_inactive)
  next
    case True
    then have n: "n < length ts" and act: "isActive (ts ! n)" by simp_all
    define ts1 where "ts1 = ts[n := (ts ! n)\<lparr>elapsedSeconds := elapsedSeconds (ts ! n) + 1\<rparr>]"
    define ts2 where "ts2 = (case tickAction (ts ! n) of
                    None \<Rightarrow> ts1
                  | Some f \<Rightarrow> perform (eff f n ts1) ts1)"
    have "isActive ((ts ! n)\<lparr>elapsedSeconds := elapsedSeconds (ts ! n) + 1\<rparr>) \<longrightarrow>
          isInactivityTimer ((ts ! n)\<lparr>elapsedSeconds := elapsedSeconds (ts ! n) + 1\<rparr>)"
      using all n by simp
    with all have q1: "\<forall>t\<in>set ts1. isActive t \<longrightarrow> isInactivityTimer t"
      unfolding ts1_def by (rule update_keeps)
    have q2: "\<forall>t\<in>set ts2. isActive t \<longrightarrow> isInactivityTimer t"
      unfolding ts2_def using q1 quiet [OF q1] by (cases "tickAction (ts ! n)") simp_all
    have n2: "n < length ts2"
      unfolding ts2_def ts1_def using n
      by (cases "tickAction (ts ! n)") (simp_all add: perform_length)
    have here: "isActive (ts2 ! n) \<longrightarrow> isInactivityTimer (ts2 ! n)"
      using q2 n2 by simp
    show ?thesis
    proof (intro allI impI)
      fix f x
      assume "ActionCalled f x \<in> set (trace (snd (executeAction eff clk d n ts h)))"
      then have "ActionCalled f x \<in> set (trace h) \<or>
          (isActive (ts2 ! n) \<and> isInactivityTimer x = isInactivityTimer (ts2 ! n))"
        by (auto simp add: executeAction_active [OF n act] Let_def call_def ts1_def ts2_def
            split: option.splits if_splits cong: option.case_cong)
      with tr here show "isInactivityTimer x" by blast
    qed
  qed
  from first second show ?thesis by (rule conjI)
qed

lemma executeActions_noStray:
  assumes like: "likeOperations eff"
  shows "\<forall>t\<in>set ts. isActive t \<longrightarrow> isInactivityTimer t \<Longrightarrow>
    \<forall>f x. ActionCalled f x \<in> set (trace h) \<longrightarrow> isInactivityTimer x \<Longrightarrow>
    (\<forall>t\<in>set (fst (executeActions eff clk d ns ts h)). isActive t \<longrightarrow> isInactivityTimer t) \<and>
    (\<forall>f x. ActionCalled f x \<in> set (trace (snd (executeActions eff clk d ns ts h)))
       \<longrightarrow> isInactivityTimer x)"
proof (induction ns arbitrary: ts h)
  case Nil
  show ?case unfolding executeActions.simps fst_conv snd_conv
    using Nil.prems by (rule conjI)
next
  case (Cons n ns)
  note r = executeAction_noStray [OF like Cons.prems, of clk d n]
  have eq: "executeActions eff clk d (n # ns) ts h =
      executeActions eff clk d ns (fst (executeAction eff clk d n ts h))
        (snd (executeAction eff clk d n ts h))"
    by (simp add: split_beta)
  from Cons.IH [OF conjunct1 [OF r] conjunct2 [OF r]] show ?case unfolding eq .
qed

lemma checkTimers_noStray:
  assumes like: "likeOperations eff"
    and all: "\<forall>t\<in>set (timers m). isActive t \<longrightarrow> isInactivityTimer t"
    and tr: "\<forall>f x. ActionCalled f x \<in> set (trace h) \<longrightarrow> isInactivityTimer x"
  shows "(\<forall>t\<in>set (timers (fst (checkTimers eff clk m h))). isActive t \<longrightarrow> isInactivityTimer t) \<and>
         (\<forall>f x. ActionCalled f x \<in> set (trace (snd (checkTimers eff clk m h)))
            \<longrightarrow> isInactivityTimer x)"
proof (cases "\<bar>real_of_int (clk (reads h) - managerLastExecutionDate m)\<bar> / 1000 + timerTolerance
       < real_of_int (checkTimerInterval m) / 1000")
  case True
  have e: "trace (h\<lparr>reads := Suc (reads h)\<rparr>) = trace h" by simp
  show ?thesis
    unfolding checkTimers_skip [where clk=clk and h=h and m=m and eff=eff, OF True]
      fst_conv snd_conv e
    using all tr by (rule conjI)
next
  case False
  define kept where "kept = filter (\<lambda>x. isActive x \<or> isInactivityTimer x) (timers m)"
  define h1 where "h1 = h\<lparr>reads := Suc (reads h)\<rparr>"
  have k: "\<forall>t\<in>set kept. isActive t \<longrightarrow> isInactivityTimer t"
    unfolding kept_def set_filter using all by blast
  have "trace h1 = trace h" unfolding h1_def by simp
  with tr have t: "\<forall>f x. ActionCalled f x \<in> set (trace h1) \<longrightarrow> isInactivityTimer x"
    by metis
  have a: "timers (fst (checkTimers eff clk m h)) =
      fst (executeActions eff clk (clk (reads h)) (activePositions kept) kept h1)"
    and b: "snd (checkTimers eff clk m h) =
      snd (executeActions eff clk (clk (reads h)) (activePositions kept) kept h1)"
    unfolding kept_def h1_def
    by (simp_all add: checkTimers_pass [where clk=clk and h=h and m=m and eff=eff, OF False])
  from executeActions_noStray [OF like k t, of clk "clk (reads h)" "activePositions kept"]
  show ?thesis unfolding a b .
qed

lemma likeOperations_inert: "likeOperations inert"
  unfolding likeOperations_def inert_def by (simp add: sameTimer_refl)

lemma step_noStray:
  assumes like: "likeOperations eff"
    and inv: "noStrayActivity w" and step: "apply_op eff clk rxd x w = Some w'"
  shows "noStrayActivity w'"
proof (cases "x = CheckTimers \<or> (\<exists>n d. x = ExecuteAction n d)")
  case False
  then have "apply_op eff clk rxd x w = apply_op inert clk rxd x w"
    by (cases x) simp_all
  with step have "apply_op inert clk rxd x w = Some w'" by simp
  with inv show ?thesis by (rule step_invariant)
next
  case True
  from inv have all: "\<forall>t\<in>set (timers (timerManager (fst w))). isActive t \<longrightarrow> isInactivityTimer t"
    and tr: "\<forall>f x. ActionCalled f x \<in> set (trace (snd w)) \<longrightarrow> isInactivityTimer x"
    unfolding noStrayActivity_def by auto
  from True show ?thesis
  proof
    assume x: "x = CheckTimers"
    with step have w': "w' = withManager (checkTimers eff clk) w" by simp
    have "timerManager (fst w') = fst (checkTimers eff clk (timerManager (fst w)) (snd w))"
      and "snd w' = snd (checkTimers eff clk (timerManager (fst w)) (snd w))"
      unfolding w' by (simp_all add: withManager_fst withManager_snd)
    with checkTimers_noStray [OF like all tr, of clk] show ?thesis
      unfolding noStrayActivity_def by metis
  next
    assume "\<exists>n d. x = ExecuteAction n d"
    then obtain n d where x: "x = ExecuteAction n d" by blast
    with step have w': "w' = withManager (onCollection (executeAction eff clk d n)) w" by simp
    have "timers (timerManager (fst w')) =
        fst (executeAction eff clk d n (timers (timerManager (fst w))) (snd w))"
      and "snd w' = snd (executeAction eff clk d n (timers (timerManager (fst w))) (snd w))"
      unfolding w' by (simp_all add: withManager_fst withManager_snd onCollection_fst onCollection_snd)
    with executeAction_noStray [OF like all tr, of clk d n] show ?thesis
      unfolding noStrayActivity_def by metis
  qed
qed

lemma run_noStray:
  assumes like: "likeOperations eff"
  shows "noStrayActivity w \<Longrightarrow> run eff clk rxd xs w = Some w' \<Longrightarrow> noStrayActivity w'"
proof (induction xs arbitrary: w)
  case Nil
  then show ?case by simp
next
  case (Cons x xs)
  from Cons.prems(2) obtain w1 where s: "apply_op eff clk rxd x w = Some w1"
    and r: "run eff clk rxd xs w1 = Some w'"
    by (auto split: option.splits)
  from step_noStray [OF like Cons.prems(1) s] have "noStrayActivity w1" .
  from Cons.IH [OF this r] show ?case .
qed

text \<open>
  In every state that a host of this kind reaches from a new manager, a timer that is
  not an inactivity timer is not active and its action has not been called.
\<close>

lemma reachable_noStray:
  assumes "likeOperations eff" and "run eff clk rxd xs (startup clk lastClear) = Some u"
  shows "(\<forall>t\<in>set (timers (timerManager (fst u))).
            isInactivityTimer t = False \<longrightarrow> isActive t = False) \<and>
         (\<forall>f t. ActionCalled f t \<in> set (trace (snd u)) \<longrightarrow> isInactivityTimer t)"
proof -
  from assms(1) startup_invariant [of clk lastClear] assms(2) have "noStrayActivity u"
    by (rule run_noStray)
  then show ?thesis unfolding noStrayActivity_def by blast
qed

lemma likeOperations_cancelsOnTick: "likeOperations cancelsOnTick"
  unfolding likeOperations_def cancelsOnTick_def
  by (simp add: sameTimer_def cancel_def)

text \<open>
  Claim C4. Take any sequence of the public operations (\<^verbatim>\<open>addTimer\<close>, \<^verbatim>\<open>checkTimers\<close>,
  \<^verbatim>\<open>executeAction\<close> and its resumption after the \<^verbatim>\<open>await\<close>, \<^verbatim>\<open>cancel\<close>, \<^verbatim>\<open>cancelTimer\<close>,
  \<^verbatim>\<open>cancelTimers\<close>, \<^verbatim>\<open>cancelBlockTimers\<close>, \<^verbatim>\<open>resetInactivityTimers\<close>). A timer that is
  active after an operation was already active before it, unless the operation is
  \<^verbatim>\<open>resetInactivityTimers\<close> and the timer is an inactivity timer. Therefore, in every
  state reached from a new manager, a timer that is not an inactivity timer is not
  active, and every action that has been called was called on an inactivity timer:
  the action of a timer with \<^verbatim>\<open>isInactivityTimer = false\<close> is never called. The claim is
  about what the operations themselves write, so the callables they run are the ones
  that leave the scheduler alone (\<open>inert\<close>); for the hosts whose callables act like the
  public operations, the second part is \<open>reachable_noStray\<close> above.
\<close>

theorem only_resetInactivityTimers_activates:
  "(apply_op inert clk rxd x w = Some w' \<longrightarrow>
      (\<forall>t'\<in>set (timers (timerManager (fst w'))). isActive t' \<longrightarrow>
          (x = ResetInactivityTimers \<and> isInactivityTimer t') \<or>
          (\<exists>t\<in>set (timers (timerManager (fst w))). isActive t \<and> sameTimer t t'))) \<and>
   (run inert clk rxd xs (startup clk lastClear) = Some u \<longrightarrow>
      (\<forall>t\<in>set (timers (timerManager (fst u))).
          isInactivityTimer t = False \<longrightarrow> isActive t = False) \<and>
      (\<forall>f t. ActionCalled f t \<in> set (trace (snd u)) \<longrightarrow> isInactivityTimer t))"
proof -
  have step: "(x = ResetInactivityTimers \<and> isInactivityTimer t') \<or>
        (\<exists>t\<in>set (timers (timerManager (fst w))). isActive t \<and> sameTimer t t')"
    if step: "apply_op inert clk rxd x w = Some w'"
      and mem: "t' \<in> set (timers (timerManager (fst w')))"
      and act: "isActive t'" for t'
  proof (cases "x = ResetInactivityTimers")
    case True
    with step have "resetInactivityTimers clk rxd (fst w) (snd w) = Some w'" by simp
    from reset_result [OF this] mem
    have "isInactivityTimer t' \<or> t' \<in> set (timers (timerManager (fst w)))" by blast
    then show ?thesis
    proof
      assume "isInactivityTimer t'"
      with True show ?thesis by blast
    next
      assume "t' \<in> set (timers (timerManager (fst w)))"
      with act sameTimer_refl [of t'] show ?thesis by blast
    qed
  next
    case False
    from step_same [OF False step mem act] show ?thesis by blast
  qed
  have reach: "(\<forall>t\<in>set (timers (timerManager (fst u))).
          isInactivityTimer t = False \<longrightarrow> isActive t = False) \<and>
      (\<forall>f t. ActionCalled f t \<in> set (trace (snd u)) \<longrightarrow> isInactivityTimer t)"
    if "run inert clk rxd xs (startup clk lastClear) = Some u"
  proof -
    from startup_invariant [of clk lastClear] that have "noStrayActivity u"
      by (rule run_invariant)
    then show ?thesis unfolding noStrayActivity_def by blast
  qed
  from step reach show ?thesis by blast
qed

theorem only_resetInactivityTimers_activates_witness:
  "(\<exists>w'. apply_op inert clock0 True ResetInactivityTimers (samplePlayer, \<lparr>reads = 1, trace = []\<rparr>)
            = Some w' \<and>
      map isActive (timers (timerManager (fst w'))) = [True, False, True] \<and>
      (\<forall>t'\<in>set (timers (timerManager (fst w'))). isActive t' \<longrightarrow>
          isInactivityTimer t' \<or>
          (\<exists>t\<in>set (timers (timerManager samplePlayer)). isActive t \<and> sameTimer t t'))) \<and>
   (\<exists>u. run inert clock0 False sampleRun (startup clock0 (- 20000)) = Some u \<and>
      map timerId (timers (timerManager (fst u))) = [''idle''] \<and>
      map action (filter isActive (timers (timerManager (fst u)))) = [''warnIdle''] \<and>
      list_ex isActionCall (trace (snd u)) \<and>
      (\<forall>t\<in>set (timers (timerManager (fst u))).
          isInactivityTimer t = False \<longrightarrow> isActive t = False) \<and>
      (\<forall>f t. ActionCalled f t \<in> set (trace (snd u)) \<longrightarrow> isInactivityTimer t))"
proof -
  have "case apply_op inert clock0 True ResetInactivityTimers (samplePlayer, \<lparr>reads = 1, trace = []\<rparr>) of
          None \<Rightarrow> False
        | Some w' \<Rightarrow> map isActive (timers (timerManager (fst w'))) = [True, False, True]"
    by code_simp
  then obtain w' where
    s: "apply_op inert clock0 True ResetInactivityTimers (samplePlayer, \<lparr>reads = 1, trace = []\<rparr>) = Some w'"
    and a: "map isActive (timers (timerManager (fst w'))) = [True, False, True]"
    by (auto split: option.splits)
  have "case run inert clock0 False sampleRun (startup clock0 (- 20000)) of
          None \<Rightarrow> False
        | Some u \<Rightarrow> map timerId (timers (timerManager (fst u))) = [''idle''] \<and>
            map action (filter isActive (timers (timerManager (fst u)))) = [''warnIdle''] \<and>
            list_ex isActionCall (trace (snd u))"
    by code_simp
  then obtain u where
    r: "run inert clock0 False sampleRun (startup clock0 (- 20000)) = Some u"
    and c: "map timerId (timers (timerManager (fst u))) = [''idle'']"
      "map action (filter isActive (timers (timerManager (fst u)))) = [''warnIdle'']"
      "list_ex isActionCall (trace (snd u))"
    by (auto split: option.splits)
  from only_resetInactivityTimers_activates
    [where clk=clock0 and rxd=True and x=ResetInactivityTimers
       and w="(samplePlayer, \<lparr>reads = 1, trace = []\<rparr>)" and w'=w'
       and xs="[]" and lastClear=0 and u="startup clock0 0"]
    only_resetInactivityTimers_activates
    [where clk=clock0 and rxd=False and x=CheckTimers
       and w="startup clock0 (- 20000)" and w'="withManager (checkTimers inert clock0) (startup clock0 (- 20000))"
       and xs=sampleRun and lastClear="- 20000" and u=u] s r
  have f1: "\<forall>t'\<in>set (timers (timerManager (fst w'))). isActive t' \<longrightarrow>
          isInactivityTimer t' \<or>
          (\<exists>t\<in>set (timers (timerManager samplePlayer)). isActive t \<and> sameTimer t t')"
    and f2: "\<forall>t\<in>set (timers (timerManager (fst u))).
          isInactivityTimer t = False \<longrightarrow> isActive t = False"
    and f3: "\<forall>f t. ActionCalled f t \<in> set (trace (snd u)) \<longrightarrow> isInactivityTimer t"
    by simp_all
  have one: "\<exists>w'. apply_op inert clock0 True ResetInactivityTimers (samplePlayer, \<lparr>reads = 1, trace = []\<rparr>)
            = Some w' \<and>
      map isActive (timers (timerManager (fst w'))) = [True, False, True] \<and>
      (\<forall>t'\<in>set (timers (timerManager (fst w'))). isActive t' \<longrightarrow>
          isInactivityTimer t' \<or>
          (\<exists>t\<in>set (timers (timerManager samplePlayer)). isActive t \<and> sameTimer t t'))"
    using s a f1 by (intro exI [of _ w'] conjI)
  have two: "\<exists>u. run inert clock0 False sampleRun (startup clock0 (- 20000)) = Some u \<and>
      map timerId (timers (timerManager (fst u))) = [''idle''] \<and>
      map action (filter isActive (timers (timerManager (fst u)))) = [''warnIdle''] \<and>
      list_ex isActionCall (trace (snd u)) \<and>
      (\<forall>t\<in>set (timers (timerManager (fst u))).
          isInactivityTimer t = False \<longrightarrow> isActive t = False) \<and>
      (\<forall>f t. ActionCalled f t \<in> set (trace (snd u)) \<longrightarrow> isInactivityTimer t)"
    using r c f2 f3 by (intro exI [of _ u] conjI)
  from one two show ?thesis by (rule conjI)
qed

end
